theory Spec2Isabelle
  imports Main "HOL-Library.Word"
begin

unbundle bit_operations_syntax

section \<open>The memory model of \<^verbatim>\<open>dyn_mem.c\<close>\<close>

text \<open>
  The allocator keeps its block headers inside the byte array \<^verbatim>\<open>work_mem\<close> that also
  holds the payloads, so the model is a flat byte store: an address is a natural number, a
  store maps every address to a byte, and \<^verbatim>\<open>NULL\<close> is address 0.  Address arithmetic is
  not wrapped: an address computation that leaves the address space is undefined in C.

  \<^verbatim>\<open>DM_MEM_SIZE\<close>, \<^verbatim>\<open>DM_AUTO_ZERO\<close> and \<^verbatim>\<open>DM_MEM_ATTR\<close> come from \<^verbatim>\<open>misc_conf.h\<close>, which
  is not part of the sources; they are parameters of the model, together with the two
  addresses the linker chooses for the static objects \<^verbatim>\<open>work_mem\<close> and \<^verbatim>\<open>zero_mem\<close>.
\<close>

type_synonym addr = nat
type_synonym byte = "8 word"
type_synonym mem = "addr \<Rightarrow> byte"

record dm_conf =
  DM_MEM_SIZE :: nat
  DM_AUTO_ZERO :: bool
  work_mem :: addr
  zero_mem :: addr

definition NULL :: addr where
  "NULL = 0"

text \<open>\<^verbatim>\<open>sizeof(dm_header_t)\<close>: the union is one \<^verbatim>\<open>uint32_t\<close>.\<close>

definition hdr_size :: nat where
  "hdr_size = 4"

text \<open>\<^verbatim>\<open>&work_mem[DM_MEM_SIZE]\<close>, the address one past the arena.\<close>

definition mem_end :: "dm_conf \<Rightarrow> addr" where
  "mem_end c = work_mem c + DM_MEM_SIZE c"

text \<open>
  What C guarantees about the two static objects and what the casts of \<^verbatim>\<open>work_mem\<close> to
  \<^verbatim>\<open>dm_ent_t *\<close> need: the arena holds at least one header, its size is a multiple of the
  header size and fits the 31-bit size field, neither object is at \<^verbatim>\<open>NULL\<close>, the arena is
  aligned for \<^verbatim>\<open>uint32_t\<close>, and the four bytes of \<^verbatim>\<open>zero_mem\<close> lie outside the arena.
\<close>

definition conf_ok :: "dm_conf \<Rightarrow> bool" where
  "conf_ok c \<longleftrightarrow>
     hdr_size \<le> DM_MEM_SIZE c \<and> DM_MEM_SIZE c mod 4 = 0 \<and> DM_MEM_SIZE c - hdr_size < 2 ^ 31 \<and>
     0 < work_mem c \<and> work_mem c mod 4 = 0 \<and> 0 < zero_mem c \<and>
     (zero_mem c + 4 \<le> work_mem c \<or> mem_end c \<le> zero_mem c)"

subsection \<open>The header word\<close>

text \<open>
  A header is the \<^verbatim>\<open>uint32_t\<close> storage unit of the union \<^verbatim>\<open>dm_header_t\<close>, stored in four
  bytes, least significant first.  The bit-field \<^verbatim>\<open>used:1\<close> is bit 0 and \<^verbatim>\<open>d_size:31\<close> is
  bits 1 to 31 (the allocation order of GCC and Clang on little-endian targets).
\<close>

definition load32 :: "mem \<Rightarrow> addr \<Rightarrow> 32 word" where
  "load32 m a =
     ucast (m a) OR push_bit 8 (ucast (m (a + 1))) OR
     push_bit 16 (ucast (m (a + 2))) OR push_bit 24 (ucast (m (a + 3)))"

definition store32 :: "mem \<Rightarrow> addr \<Rightarrow> 32 word \<Rightarrow> mem" where
  "store32 m a w =
     m(a := ucast w, a + 1 := ucast (drop_bit 8 w),
       a + 2 := ucast (drop_bit 16 w), a + 3 := ucast (drop_bit 24 w))"

text \<open>Reading \<^verbatim>\<open>e->header.used\<close> and \<^verbatim>\<open>e->header.d_size\<close> (promoted to 32 bits).\<close>

definition get_used :: "mem \<Rightarrow> addr \<Rightarrow> bool" where
  "get_used m e = bit (load32 m e) 0"

definition get_d_size :: "mem \<Rightarrow> addr \<Rightarrow> 32 word" where
  "get_d_size m e = drop_bit 1 (load32 m e)"

text \<open>
  Assigning to a bit-field rewrites the storage unit and keeps the other field; a value
  assigned to \<^verbatim>\<open>d_size\<close> is reduced modulo \<open>2 ^ 31\<close>.
\<close>

definition set_used :: "mem \<Rightarrow> addr \<Rightarrow> bool \<Rightarrow> mem" where
  "set_used m e u = store32 m e ((load32 m e AND NOT 1) OR (if u then 1 else 0))"

definition set_d_size :: "mem \<Rightarrow> addr \<Rightarrow> 32 word \<Rightarrow> mem" where
  "set_d_size m e s = store32 m e ((load32 m e AND 1) OR push_bit 1 s)"

text \<open>\<^verbatim>\<open>memset\<close> and \<^verbatim>\<open>memcpy\<close> (the source bytes are those held before the copy).\<close>

definition memset :: "mem \<Rightarrow> addr \<Rightarrow> byte \<Rightarrow> nat \<Rightarrow> mem" where
  "memset m d v n = (\<lambda>x. if d \<le> x \<and> x < d + n then v else m x)"

definition memcpy :: "mem \<Rightarrow> addr \<Rightarrow> addr \<Rightarrow> nat \<Rightarrow> mem" where
  "memcpy m d s n = (\<lambda>x. if d \<le> x \<and> x < d + n then m (s + (x - d)) else m x)"

section \<open>The functions of \<^verbatim>\<open>dyn_mem.c\<close>\<close>

text \<open>\<^verbatim>\<open>dm_init\<close>: one free entry over the whole arena.\<close>

definition dm_init :: "dm_conf \<Rightarrow> mem \<Rightarrow> mem" where
  "dm_init c m =
     (let full = work_mem c;
          m1 = set_used m full False
      in set_d_size m1 full (of_nat (DM_MEM_SIZE c) - of_nat hdr_size))"

text \<open>\<^verbatim>\<open>ent_get_next\<close>: the entry after \<open>act_e\<close>, the first entry for \<^verbatim>\<open>NULL\<close>.\<close>

definition ent_get_next :: "dm_conf \<Rightarrow> mem \<Rightarrow> addr \<Rightarrow> addr" where
  "ent_get_next c m act_e =
     (if act_e = NULL then work_mem c
      else let data = act_e + hdr_size;
               next_e = data + unat (get_d_size m act_e)
           in if next_e + hdr_size \<ge> mem_end c then NULL else next_e)"

text \<open>
  \<^verbatim>\<open>ent_trunc\<close>.  The sums are taken in 32 bits; \<^verbatim>\<open>ent_alloc\<close> calls it only with
  \<open>size \<le> d_size < 2 ^ 31\<close>, where a wider \<^verbatim>\<open>size_t\<close> gives the same values.
\<close>

definition ent_trunc :: "mem \<Rightarrow> addr \<Rightarrow> 32 word \<Rightarrow> mem \<times> addr" where
  "ent_trunc m e size0 =
     (let size1 = (if get_d_size m e = size0 + of_nat hdr_size
                   then size0 + of_nat hdr_size else size0);
          m1 = (if get_d_size m e \<noteq> size1
                then let e_data = e + hdr_size;
                         new_e = e_data + unat size1;
                         m2 = set_used m new_e False
                     in set_d_size m2 new_e (get_d_size m2 e - size1 - of_nat hdr_size)
                else m);
          m3 = set_d_size m1 e size1
      in (m3, e))"

text \<open>\<^verbatim>\<open>ent_alloc\<close>: the payload address, or \<^verbatim>\<open>NULL\<close> when the entry does not fit.\<close>

definition ent_alloc :: "mem \<Rightarrow> addr \<Rightarrow> 32 word \<Rightarrow> mem \<times> addr" where
  "ent_alloc m e size0 =
     (if \<not> get_used m e \<and> get_d_size m e \<ge> size0
      then let m1 = fst (ent_trunc m e size0);
               m2 = set_used m1 e True
           in (m2, e + hdr_size)
      else (m, NULL))"

text \<open>
  The \<^verbatim>\<open>do ... while\<close> loop of \<^verbatim>\<open>dm_alloc\<close>; \<open>e\<close> is the entry of the previous round
  (\<^verbatim>\<open>NULL\<close> at the start).
\<close>

function dm_alloc_loop :: "dm_conf \<Rightarrow> 32 word \<Rightarrow> mem \<Rightarrow> addr \<Rightarrow> mem \<times> addr" where
  "dm_alloc_loop c size0 m e =
     (let e1 = ent_get_next c m e
      in if e1 = NULL then (m, NULL)
         else if snd (ent_alloc m e1 size0) = NULL
              then dm_alloc_loop c size0 (fst (ent_alloc m e1 size0)) e1
              else ent_alloc m e1 size0)"
  by pat_completeness auto

termination dm_alloc_loop
proof (relation "measure (\<lambda>(c, s, m, e). if e = NULL then mem_end c + 1 else mem_end c - e)")
  show "wf (measure (\<lambda>(c, s, m, e). if e = NULL then mem_end c + 1 else mem_end c - e))"
    by simp
next
  fix c :: dm_conf and size0 :: "32 word" and m :: mem and e e1 :: addr
  assume e1: "e1 = ent_get_next c m e" and nn: "e1 \<noteq> NULL"
  show "((c, size0, fst (ent_alloc m e1 size0), e1), (c, size0, m, e))
          \<in> measure (\<lambda>(c, s, m, e). if e = NULL then mem_end c + 1 else mem_end c - e)"
  proof (cases "e = NULL")
    case True
    then have "e1 = work_mem c" using e1 by (simp add: ent_get_next_def)
    then show ?thesis using True nn by (simp add: mem_end_def)
  next
    case False
    then have "e < e1 \<and> e1 < mem_end c"
      using e1 nn by (auto simp: ent_get_next_def Let_def hdr_size_def split: if_splits)
    then show ?thesis using False nn by auto
  qed
qed

declare dm_alloc_loop.simps [simp del]

text \<open>The rounding at the start of \<^verbatim>\<open>dm_alloc\<close> (``Round the size up to 4''), in 32 bits.\<close>

definition round_up4 :: "32 word \<Rightarrow> 32 word" where
  "round_up4 size0 = (if size0 AND 3 \<noteq> 0 then (size0 AND NOT 3) + 4 else size0)"

text \<open>\<^verbatim>\<open>dm_alloc\<close>.\<close>

definition dm_alloc :: "dm_conf \<Rightarrow> 32 word \<Rightarrow> mem \<Rightarrow> mem \<times> addr" where
  "dm_alloc c size0 m =
     (if size0 = 0 then (m, zero_mem c)
      else let size1 = round_up4 size0;
               r = dm_alloc_loop c size1 m NULL;
               alloc = snd r;
               m1 = (if DM_AUTO_ZERO c \<and> alloc \<noteq> NULL
                     then memset (fst r) alloc 0 (unat size1) else fst r)
           in (m1, alloc))"

text \<open>
  \<^verbatim>\<open>dm_free\<close>.  The header stands \<open>hdr_size\<close> bytes before the payload; every address
  \<^verbatim>\<open>dm_alloc\<close> hands out is at least \<open>hdr_size\<close>, so the subtraction on natural numbers
  is the pointer subtraction for every handle.
\<close>

definition dm_free :: "dm_conf \<Rightarrow> addr \<Rightarrow> mem \<Rightarrow> mem" where
  "dm_free c data_dp m =
     (if data_dp = zero_mem c then m
      else if data_dp = NULL then m
      else set_used m (data_dp - hdr_size) False)"

text \<open>\<^verbatim>\<open>dm_get_size\<close>.\<close>

definition dm_get_size :: "dm_conf \<Rightarrow> addr \<Rightarrow> mem \<Rightarrow> 32 word" where
  "dm_get_size c data_dp m =
     (if data_dp = zero_mem c then 0 else get_d_size m (data_dp - hdr_size))"

text \<open>
  Modelled from the spec: the macro \<^verbatim>\<open>min\<close> of \<^verbatim>\<open>math_base.h\<close>, which is not part of the
  sources; \<^verbatim>\<open>dm_realloc\<close> copies ``the smaller size'' of two \<^verbatim>\<open>uint32_t\<close> values.
\<close>

definition min_u32 :: "32 word \<Rightarrow> 32 word \<Rightarrow> 32 word" where
  "min_u32 a b = (if a < b then a else b)"

text \<open>\<^verbatim>\<open>dm_realloc\<close>.\<close>

definition dm_realloc :: "dm_conf \<Rightarrow> addr \<Rightarrow> 32 word \<Rightarrow> mem \<Rightarrow> mem \<times> addr" where
  "dm_realloc c data_p new_size m =
     (let r = dm_alloc c new_size m;
          new_p = snd r;
          m1 = fst r
      in if new_p \<noteq> NULL \<and> data_p \<noteq> NULL
         then let old_size = dm_get_size c data_p m1
              in if old_size \<noteq> 0
                 then (dm_free c data_p (memcpy m1 new_p data_p (unat (min_u32 new_size old_size))),
                       new_p)
                 else (m1, new_p)
         else (m1, new_p))"

text \<open>\<^verbatim>\<open>dm_defrag\<close> has an empty body.\<close>

definition dm_defrag :: "mem \<Rightarrow> mem" where
  "dm_defrag m = m"

text \<open>
  Modelled from the spec: the type \<^verbatim>\<open>dm_mon_t\<close> of \<^verbatim>\<open>dyn_mem.h\<close>, which is not part of
  the sources; the five statistics \<^verbatim>\<open>dm_monitor\<close> writes (count of free blocks, count of
  used blocks, total free bytes, largest free block, fragmentation percentage), each
  taken as an unsigned 32-bit value.
\<close>

record dm_mon_t =
  cnt_free :: "32 word"
  cnt_used :: "32 word"
  size_free :: "32 word"
  size_free_big :: "32 word"
  pct_frag :: "32 word"

definition mon_zero :: dm_mon_t where
  "mon_zero = \<lparr>cnt_free = 0, cnt_used = 0, size_free = 0, size_free_big = 0, pct_frag = 0\<rparr>"

text \<open>
  \<^verbatim>\<open>dm_monitor\<close> reads the arena and writes only through \<^verbatim>\<open>mon_p\<close>, so the model
  takes the store and returns the record.  First the body of the \<^verbatim>\<open>while\<close> loop for
  the entry \<open>e\<close>, then the loop.
\<close>

definition mon_entry :: "mem \<Rightarrow> addr \<Rightarrow> dm_mon_t \<Rightarrow> dm_mon_t" where
  "mon_entry m e mon =
     (if \<not> get_used m e
      then let mon1 = mon\<lparr>cnt_free := cnt_free mon + 1\<rparr>;
               mon2 = mon1\<lparr>size_free := size_free mon1 + get_d_size m e\<rparr>
           in if get_d_size m e > size_free_big mon2
              then mon2\<lparr>size_free_big := get_d_size m e\<rparr> else mon2
      else mon\<lparr>cnt_used := cnt_used mon + 1\<rparr>)"

function dm_monitor_loop :: "dm_conf \<Rightarrow> mem \<Rightarrow> addr \<Rightarrow> dm_mon_t \<Rightarrow> dm_mon_t" where
  "dm_monitor_loop c m e mon =
     (if e = NULL then mon
      else dm_monitor_loop c m (ent_get_next c m e) (mon_entry m e mon))"
  by pat_completeness auto

termination dm_monitor_loop
proof (relation "measure (\<lambda>(c, m, e, mon). if e = NULL then 0 else Suc (mem_end c - e))")
  show "wf (measure (\<lambda>(c, m, e, mon). if e = NULL then 0 else Suc (mem_end c - e)))"
    by simp
next
  fix c :: dm_conf and m :: mem and e :: addr and mon :: dm_mon_t
  assume "e \<noteq> NULL"
  then show "((c, m, ent_get_next c m e, mon_entry m e mon), (c, m, e, mon))
          \<in> measure (\<lambda>(c, m, e, mon). if e = NULL then 0 else Suc (mem_end c - e))"
    by (auto simp: ent_get_next_def Let_def hdr_size_def NULL_def split: if_splits)
qed

declare dm_monitor_loop.simps [simp del]

text \<open>
  Dividing by a \<^verbatim>\<open>size_free\<close> of zero is undefined in C: the model returns \<open>None\<close>
  there.
\<close>

definition dm_monitor :: "dm_conf \<Rightarrow> mem \<Rightarrow> dm_mon_t option" where
  "dm_monitor c m =
     (let e = ent_get_next c m NULL;
          mon1 = dm_monitor_loop c m e mon_zero
      in if size_free mon1 = 0 then None
         else let mon2 = mon1\<lparr>pct_frag := size_free_big mon1 * 100 div size_free mon1\<rparr>
              in Some (mon2\<lparr>pct_frag := 100 - pct_frag mon2\<rparr>))"

section \<open>The block chain\<close>

text \<open>
  The entries of the arena in address order, as the loops of \<^verbatim>\<open>dm_alloc\<close> and
  \<^verbatim>\<open>dm_monitor\<close> visit them: \<^verbatim>\<open>ent_get_next\<close> iterated from \<^verbatim>\<open>NULL\<close> until it
  returns \<^verbatim>\<open>NULL\<close>.
\<close>

function entries_from :: "dm_conf \<Rightarrow> mem \<Rightarrow> addr \<Rightarrow> addr list" where
  "entries_from c m e =
     (if e = NULL then [] else e # entries_from c m (ent_get_next c m e))"
  by pat_completeness auto

termination entries_from
proof (relation "measure (\<lambda>(c, m, e). if e = NULL then 0 else Suc (mem_end c - e))")
  show "wf (measure (\<lambda>(c, m, e). if e = NULL then 0 else Suc (mem_end c - e)))"
    by simp
next
  fix c :: dm_conf and m :: mem and e :: addr
  assume "e \<noteq> NULL"
  then show "((c, m, ent_get_next c m e), (c, m, e))
          \<in> measure (\<lambda>(c, m, e). if e = NULL then 0 else Suc (mem_end c - e))"
    by (auto simp: ent_get_next_def Let_def hdr_size_def NULL_def split: if_splits)
qed

declare entries_from.simps [simp del]

definition entries :: "dm_conf \<Rightarrow> mem \<Rightarrow> addr list" where
  "entries c m = entries_from c m (ent_get_next c m NULL)"

text \<open>The payload size of the entry at \<open>e\<close> as a number, and the test of \<^verbatim>\<open>ent_alloc\<close>.\<close>

definition ent_size :: "mem \<Rightarrow> addr \<Rightarrow> nat" where
  "ent_size m e = unat (get_d_size m e)"

definition fits :: "mem \<Rightarrow> 32 word \<Rightarrow> addr \<Rightarrow> bool" where
  "fits m size0 e \<longleftrightarrow> \<not> get_used m e \<and> size0 \<le> get_d_size m e"

text \<open>
  The tiling of the arena from the entry at \<open>e\<close> on: every size is a multiple of 4 and
  the step \<open>e + hdr_size + size\<close> either lands on the end of the arena or on a further
  entry whose payload starts inside the arena.
\<close>

function tiled_from :: "dm_conf \<Rightarrow> mem \<Rightarrow> addr \<Rightarrow> bool" where
  "tiled_from c m e =
     (let n = e + hdr_size + ent_size m e
      in ent_size m e mod 4 = 0 \<and>
         (if n = mem_end c then True
          else if n + hdr_size < mem_end c then tiled_from c m n else False))"
  by pat_completeness auto

termination tiled_from
  by (relation "measure (\<lambda>(c, m, e). mem_end c - e)") (auto simp: hdr_size_def)

declare tiled_from.simps [simp del]

text \<open>A well-formed arena: a sound configuration and a tiling from the first entry.\<close>

definition dm_inv :: "dm_conf \<Rightarrow> mem \<Rightarrow> bool" where
  "dm_inv c m \<longleftrightarrow> conf_ok c \<and> tiled_from c m (work_mem c)"

text \<open>
  An outstanding allocation: \<open>p\<close> is the payload address of an entry of the chain whose
  \<^verbatim>\<open>used\<close> flag is set.
\<close>

definition is_allocated :: "dm_conf \<Rightarrow> mem \<Rightarrow> addr \<Rightarrow> bool" where
  "is_allocated c m p \<longleftrightarrow>
     hdr_size \<le> p \<and> p - hdr_size \<in> set (entries c m) \<and> get_used m (p - hdr_size)"

section \<open>Sequences of calls\<close>

text \<open>
  What a caller can do to the arena: the five entry points that take or change the
  store, and a write of one byte into memory it owns.
\<close>

datatype dm_call =
  Alloc "32 word"
  | Free addr
  | Realloc addr "32 word"
  | Monitor
  | Defrag
  | Store addr byte

text \<open>A handle a caller may pass: \<^verbatim>\<open>NULL\<close>, the sentinel, or an outstanding allocation.\<close>

definition handle_ok :: "dm_conf \<Rightarrow> mem \<Rightarrow> addr \<Rightarrow> bool" where
  "handle_ok c m p \<longleftrightarrow> p = NULL \<or> p = zero_mem c \<or> is_allocated c m p"

text \<open>An address inside the payload of a used entry: memory the caller owns.\<close>

definition owned :: "dm_conf \<Rightarrow> mem \<Rightarrow> addr \<Rightarrow> bool" where
  "owned c m a \<longleftrightarrow>
     list_ex (\<lambda>e. get_used m e \<and> e + hdr_size \<le> a \<and> a < e + hdr_size + ent_size m e)
       (entries c m)"

text \<open>
  The calls within the contract of the module, with two additions: \<^verbatim>\<open>dm_monitor\<close> is
  not called where it would divide by zero, and \<^verbatim>\<open>dm_realloc\<close> is not asked for more
  than \<open>2 ^ 32 - 4\<close> bytes.
\<close>

fun call_ok :: "dm_conf \<Rightarrow> mem \<Rightarrow> dm_call \<Rightarrow> bool" where
  "call_ok c m (Alloc s) = True"
| "call_ok c m (Free p) = handle_ok c m p"
| "call_ok c m (Realloc p s) = (handle_ok c m p \<and> unat s \<le> 2 ^ 32 - 4)"
| "call_ok c m Monitor = (dm_monitor c m \<noteq> None)"
| "call_ok c m Defrag = True"
| "call_ok c m (Store a v) = owned c m a"

fun call_run :: "dm_conf \<Rightarrow> dm_call \<Rightarrow> mem \<Rightarrow> mem" where
  "call_run c (Alloc s) m = fst (dm_alloc c s m)"
| "call_run c (Free p) m = dm_free c p m"
| "call_run c (Realloc p s) m = fst (dm_realloc c p s m)"
| "call_run c Monitor m = m"
| "call_run c Defrag m = dm_defrag m"
| "call_run c (Store a v) m = m(a := v)"

fun calls_ok :: "dm_conf \<Rightarrow> mem \<Rightarrow> dm_call list \<Rightarrow> bool" where
  "calls_ok c m [] = True"
| "calls_ok c m (x # xs) = (call_ok c m x \<and> calls_ok c (call_run c x m) xs)"

fun calls_run :: "dm_conf \<Rightarrow> dm_call list \<Rightarrow> mem \<Rightarrow> mem" where
  "calls_run c [] m = m"
| "calls_run c (x # xs) m = calls_run c xs (call_run c x m)"

section \<open>A small arena\<close>

text \<open>
  An arena of 32 bytes at address 100, with \<^verbatim>\<open>zero_mem\<close> at address 200, initialised from
  the all-zero store of a static array.
\<close>

definition c32 :: dm_conf where
  "c32 = \<lparr>DM_MEM_SIZE = 32, DM_AUTO_ZERO = False, work_mem = 100, zero_mem = 200\<rparr>"

definition m32 :: mem where
  "m32 = dm_init c32 (\<lambda>x. 0)"

text \<open>The same arena after \<^verbatim>\<open>dm_alloc(5)\<close>, and after \<^verbatim>\<open>dm_alloc(28)\<close>, which uses it up.\<close>

definition m32_five :: mem where
  "m32_five = fst (dm_alloc c32 5 m32)"

definition m32_full :: mem where
  "m32_full = fst (dm_alloc c32 28 m32)"

text \<open>
  The caller fills the 8 bytes it got from \<^verbatim>\<open>dm_alloc(5)\<close> with \<^verbatim>\<open>0xFF\<close> and then asks
  \<^verbatim>\<open>dm_realloc\<close> for \<^verbatim>\<open>0xFFFFFFFD\<close> bytes.
\<close>

definition m32_ff :: mem where
  "m32_ff = memset m32_five 104 0xFF 8"

definition m32_bad :: mem where
  "m32_bad = fst (dm_realloc c32 104 0xFFFFFFFD m32_ff)"

text \<open>
  A second history of the small arena: \<^verbatim>\<open>a = dm_alloc(4)\<close>, \<^verbatim>\<open>b = dm_alloc(8)\<close>,
  \<^verbatim>\<open>dm_free(a)\<close>, and the caller fills the 8 bytes of \<open>b\<close> with \<^verbatim>\<open>0xFF\<close>.
\<close>

definition m32_a :: mem where
  "m32_a = fst (dm_alloc c32 4 m32)"

definition m32_ab :: mem where
  "m32_ab = fst (dm_alloc c32 8 m32_a)"

definition m32_b :: mem where
  "m32_b = dm_free c32 104 m32_ab"

definition m32_bff :: mem where
  "m32_bff = memset m32_b 112 0xFF 8"

section \<open>A large arena\<close>

text \<open>An arena of 64 MiB at address 4096, freshly initialised.\<close>

definition c64M :: dm_conf where
  "c64M = \<lparr>DM_MEM_SIZE = 67108864, DM_AUTO_ZERO = False, work_mem = 4096, zero_mem = 1024\<rparr>"

definition m64M :: mem where
  "m64M = dm_init c64M (\<lambda>x. 0)"

section \<open>Headers in the byte store\<close>

lemma load32_store32_same: "load32 (store32 m a w) a = w"
  unfolding load32_def store32_def
  apply simp
  apply (rule bit_word_eqI)
  apply (auto simp: bit_simps)
  apply (rule ccontr)
  apply (simp add: not_less)
  done

lemma load32_store32_other:
  "a + 4 \<le> b \<or> b + 4 \<le> a \<Longrightarrow> load32 (store32 m a w) b = load32 m b"
  unfolding load32_def store32_def by auto

lemma store32_frame: "x < a \<or> a + 4 \<le> x \<Longrightarrow> store32 m a w x = m x"
  unfolding store32_def by auto

lemma load32_same_bytes:
  assumes "\<And>x. a \<le> x \<Longrightarrow> x < a + 4 \<Longrightarrow> m' x = m x"
  shows "load32 m' a = load32 m a"
  unfolding load32_def using assms by simp

lemma hdr_used_bit: "bit ((h AND NOT 1) OR (if u then 1 else 0) :: 32 word) 0 = u"
  apply (cases u)
   apply (simp_all only: bit_simps if_True if_False)
   apply auto
  done

lemma hdr_used_size:
  "drop_bit 1 ((h AND NOT 1) OR (if u then 1 else 0) :: 32 word) = drop_bit 1 h"
  apply (rule bit_word_eqI)
  apply (cases u)
   apply (simp_all only: bit_simps if_True if_False comp_apply)
   apply (auto dest: bit_imp_le_length)
  done

lemma hdr_size_bit: "bit ((h AND 1) OR push_bit 1 s :: 32 word) 0 = bit h 0"
  apply (simp only: bit_simps)
  apply auto
  done

lemma hdr_size_size: "drop_bit 1 ((h AND 1) OR push_bit 1 s :: 32 word) = take_bit 31 s"
  apply (rule bit_word_eqI)
  apply (simp only: bit_simps comp_apply)
  apply (auto dest: bit_imp_le_length)
  done

lemma get_used_set_used: "get_used (set_used m e u) e = u"
  unfolding get_used_def set_used_def load32_store32_same by (rule hdr_used_bit)

lemma get_d_size_set_used: "get_d_size (set_used m e u) e = get_d_size m e"
  unfolding get_d_size_def set_used_def load32_store32_same by (rule hdr_used_size)

lemma get_used_set_d_size: "get_used (set_d_size m e s) e = get_used m e"
  unfolding get_used_def set_d_size_def load32_store32_same by (rule hdr_size_bit)

lemma get_d_size_set_d_size: "get_d_size (set_d_size m e s) e = take_bit 31 s"
  unfolding get_d_size_def set_d_size_def load32_store32_same by (rule hdr_size_size)

lemma set_used_frame: "x < e \<or> e + 4 \<le> x \<Longrightarrow> set_used m e u x = m x"
  unfolding set_used_def by (rule store32_frame)

lemma set_d_size_frame: "x < e \<or> e + 4 \<le> x \<Longrightarrow> set_d_size m e s x = m x"
  unfolding set_d_size_def by (rule store32_frame)

lemma get_used_same_bytes:
  assumes "\<And>x. a \<le> x \<Longrightarrow> x < a + 4 \<Longrightarrow> m' x = m x"
  shows "get_used m' a = get_used m a"
  unfolding get_used_def using load32_same_bytes [of a m' m] assms by simp

lemma get_d_size_same_bytes:
  assumes "\<And>x. a \<le> x \<Longrightarrow> x < a + 4 \<Longrightarrow> m' x = m x"
  shows "get_d_size m' a = get_d_size m a"
  unfolding get_d_size_def using load32_same_bytes [of a m' m] assms by simp

lemma ent_size_same_bytes:
  assumes "\<And>x. a \<le> x \<Longrightarrow> x < a + 4 \<Longrightarrow> m' x = m x"
  shows "ent_size m' a = ent_size m a"
  unfolding ent_size_def using get_d_size_same_bytes [of a m' m] assms by simp

lemma get_used_set_used_other:
  "e + 4 \<le> b \<or> b + 4 \<le> e \<Longrightarrow> get_used (set_used m e u) b = get_used m b"
  by (rule get_used_same_bytes) (auto simp: set_used_frame)

lemma get_d_size_set_used_other:
  "e + 4 \<le> b \<or> b + 4 \<le> e \<Longrightarrow> get_d_size (set_used m e u) b = get_d_size m b"
  by (rule get_d_size_same_bytes) (auto simp: set_used_frame)

lemma get_used_set_d_size_other:
  "e + 4 \<le> b \<or> b + 4 \<le> e \<Longrightarrow> get_used (set_d_size m e s) b = get_used m b"
  by (rule get_used_same_bytes) (auto simp: set_d_size_frame)

lemma get_d_size_set_d_size_other:
  "e + 4 \<le> b \<or> b + 4 \<le> e \<Longrightarrow> get_d_size (set_d_size m e s) b = get_d_size m b"
  by (rule get_d_size_same_bytes) (auto simp: set_d_size_frame)

lemma get_d_size_bound: "unat (get_d_size m e) < 2 ^ 31"
proof -
  have "unat (get_d_size m e) = unat (load32 m e) div 2"
    by (simp add: get_d_size_def drop_bit_eq_div unat_div)
  moreover have "unat (load32 m e) < 2 ^ 32"
    using unsigned_less [of "load32 m e"] by simp
  ultimately show ?thesis by simp
qed

lemma ent_size_bound: "ent_size m e < 2 ^ 31"
  unfolding ent_size_def by (rule get_d_size_bound)

lemma take_bit31_small: "unat (s :: 32 word) < 2 ^ 31 \<Longrightarrow> take_bit 31 s = s"
  by (simp add: word_unat_eq_iff unsigned_take_bit_eq take_bit_nat_eq_self)

lemma take_bit31_get_d_size: "take_bit 31 (get_d_size m e) = get_d_size m e"
  by (rule take_bit31_small) (rule get_d_size_bound)

subsection \<open>Rounding\<close>

lemma and3_zero_iff: "(s :: 32 word) AND 3 = 0 \<longleftrightarrow> unat s mod 4 = 0"
  using and_mask_dvd_nat [of 2 s] by (simp add: mask_eq_exp_minus_1 dvd_eq_mod_eq_0)

lemma Suc_Suc_diff2: "2 \<le> n \<Longrightarrow> Suc (Suc (n - 2)) = n"
  by simp

lemma unat_and_not3: "unat ((s :: 32 word) AND NOT 3) = unat s div 4 * 4"
proof -
  have "s AND NOT (mask 2) = push_bit 2 (drop_bit 2 s)"
    apply (rule bit_word_eqI)
    apply (simp only: bit_simps comp_apply)
    apply (auto dest: bit_imp_le_length simp: not_less Suc_Suc_diff2)
    done
  then have "s AND NOT 3 = push_bit 2 (drop_bit 2 s)"
    by (simp add: mask_eq_exp_minus_1)
  then have "unat (s AND NOT 3) = take_bit 32 (push_bit 2 (drop_bit 2 (unat s)))"
    by (simp add: unsigned_push_bit_eq unat_drop_bit_eq)
  also have "\<dots> = unat s div 4 * 4"
  proof -
    have "unat s < 2 ^ 32" using unsigned_less [of s] by simp
    then have "unat s div 4 * 4 < 2 ^ 32" by simp
    then show ?thesis
      by (simp add: push_bit_eq_mult drop_bit_eq_div take_bit_nat_eq_self)
  qed
  finally show ?thesis .
qed

text \<open>
  The rounded size as a number: the next multiple of 4, reduced modulo \<open>2 ^ 32\<close>.
\<close>

lemma unat_round_up4: "unat (round_up4 s) = ((unat s + 3) div 4 * 4) mod 2 ^ 32"
proof (cases "unat s mod 4 = 0")
  case True
  have "unat s < 2 ^ 32" using unsigned_less [of s] by simp
  moreover have "(unat s + 3) div 4 * 4 = unat s" using True by presburger
  ultimately show ?thesis using True by (simp add: round_up4_def and3_zero_iff)
next
  case False
  have "unat ((s AND NOT 3) + 4) = (unat s div 4 * 4 + 4) mod 2 ^ 32"
    by (simp only: unat_word_ariths unat_and_not3) simp
  moreover have "(unat s + 3) div 4 * 4 = unat s div 4 * 4 + 4" using False by presburger
  ultimately show ?thesis using False by (simp add: round_up4_def and3_zero_iff)
qed

lemma unat_round_up4_small:
  "unat s \<le> 2 ^ 32 - 4 \<Longrightarrow> unat (round_up4 s) = (unat s + 3) div 4 * 4"
proof -
  assume "unat s \<le> 2 ^ 32 - 4"
  then have "(unat s + 3) div 4 * 4 < 2 ^ 32" by simp
  then show ?thesis by (simp add: unat_round_up4)
qed

lemma round_up4_mod4: "unat (round_up4 s) mod 4 = 0"
proof -
  have "((unat s + 3) div 4 * 4) mod 2 ^ 32 mod 4 = ((unat s + 3) div 4 * 4) mod 4"
    by (rule mod_mod_cancel) simp
  then show ?thesis by (simp add: unat_round_up4)
qed

subsection \<open>Single bytes of a header\<close>

lemma store32_first: "store32 m a w a = ucast w"
  by (simp add: store32_def)

lemma load32_ff:
  "m a = 0xFF \<Longrightarrow> m (a + 1) = 0xFF \<Longrightarrow> m (a + 2) = 0xFF \<Longrightarrow> m (a + 3) = 0xFF
   \<Longrightarrow> load32 m a = 0xFFFFFFFF"
  by (simp add: load32_def)

section \<open>What \<^verbatim>\<open>ent_trunc\<close> and \<^verbatim>\<open>ent_alloc\<close> do to an entry\<close>

lemma fits_le: "fits m s e \<Longrightarrow> unat s \<le> ent_size m e"
  by (simp add: fits_def ent_size_def word_le_nat_alt)

lemma fits_small: "fits m s e \<Longrightarrow> unat s < 2 ^ 31"
  using fits_le [of m s e] ent_size_bound [of m e] by simp

lemma fits_plus4: "fits m s e \<Longrightarrow> unat (s + 4) = unat s + 4"
proof -
  assume "fits m s e"
  then have "unat s + unat (4 :: 32 word) < 2 ^ LENGTH(32)"
    using fits_small [of m s e] by simp
  then show ?thesis using unat_add_lem [of s 4] by simp
qed

lemma size_eq_iff: "get_d_size m e = s \<longleftrightarrow> ent_size m e = unat s"
  by (simp add: ent_size_def word_unat_eq_iff)

lemma ent_alloc_no_fit: "\<not> fits m s e \<Longrightarrow> ent_alloc m e s = (m, NULL)"
  by (auto simp: ent_alloc_def fits_def)

lemma ent_alloc_ptr: "fits m s e \<Longrightarrow> snd (ent_alloc m e s) = e + hdr_size"
  by (simp add: ent_alloc_def fits_def Let_def)

lemma ent_alloc_NULL_iff: "snd (ent_alloc m e s) = NULL \<longleftrightarrow> \<not> fits m s e"
  by (auto simp: ent_alloc_def fits_def Let_def NULL_def hdr_size_def)

text \<open>The entry keeps its size when the request takes all of it, or all but a header.\<close>

lemma ent_alloc_keep:
  assumes "fits m s e" and "ent_size m e = unat s \<or> ent_size m e = unat s + 4"
  shows "fst (ent_alloc m e s) = set_used (set_d_size m e (get_d_size m e)) e True"
proof -
  have p4: "unat (s + 4) = unat s + 4" using assms(1) by (rule fits_plus4)
  show ?thesis
  proof (cases "ent_size m e = unat s + 4")
    case True
    then have "get_d_size m e = s + 4" using p4 by (simp add: size_eq_iff)
    then show ?thesis using assms(1)
      by (simp add: ent_alloc_def ent_trunc_def fits_def Let_def hdr_size_def)
  next
    case False
    then have eq: "get_d_size m e = s" using assms(2) by (simp add: size_eq_iff)
    have "get_d_size m e \<noteq> s + 4" using False p4 by (simp add: size_eq_iff)
    then show ?thesis using assms(1) eq
      by (simp add: ent_alloc_def ent_trunc_def fits_def Let_def hdr_size_def)
  qed
qed

text \<open>Otherwise a header for the rest is written behind the first \<open>s\<close> payload bytes.\<close>

lemma ent_alloc_split:
  assumes "fits m s e" and "ent_size m e \<noteq> unat s" and "ent_size m e \<noteq> unat s + 4"
  shows "fst (ent_alloc m e s) =
           set_used (set_d_size
             (set_d_size (set_used m (e + 4 + unat s) False) (e + 4 + unat s)
                (get_d_size m e - s - 4)) e s) e True"
proof -
  have p4: "unat (s + 4) = unat s + 4" using assms(1) by (rule fits_plus4)
  have n1: "get_d_size m e \<noteq> s + 4" using assms(3) p4 by (simp add: size_eq_iff)
  have n2: "get_d_size m e \<noteq> s" using assms(2) by (simp add: size_eq_iff)
  have "get_d_size (set_used m (e + 4 + unat s) False) e = get_d_size m e"
    by (rule get_d_size_set_used_other) simp
  then show ?thesis using assms(1) n1 n2
    by (simp add: ent_alloc_def ent_trunc_def fits_def Let_def hdr_size_def)
qed

lemma ent_alloc_used: "fits m s e \<Longrightarrow> get_used (fst (ent_alloc m e s)) e"
proof -
  assume f: "fits m s e"
  show ?thesis
  proof (cases "ent_size m e = unat s \<or> ent_size m e = unat s + 4")
    case True
    then show ?thesis using f by (simp add: ent_alloc_keep get_used_set_used)
  next
    case False
    then show ?thesis using f by (simp add: ent_alloc_split get_used_set_used)
  qed
qed

lemma ent_alloc_size:
  assumes "fits m s e"
  shows "ent_size (fst (ent_alloc m e s)) e =
           (if ent_size m e = unat s + 4 then unat s + 4 else unat s)"
proof (cases "ent_size m e = unat s \<or> ent_size m e = unat s + 4")
  case True
  have "ent_size (fst (ent_alloc m e s)) e = ent_size m e"
    using assms True
    by (simp add: ent_alloc_keep ent_size_def get_d_size_set_used get_d_size_set_d_size
        take_bit31_get_d_size)
  then show ?thesis using True by auto
next
  case False
  have "take_bit 31 s = s" using fits_small [OF assms] by (rule take_bit31_small)
  then have "ent_size (fst (ent_alloc m e s)) e = unat s"
    using assms False
    by (simp add: ent_alloc_split ent_size_def get_d_size_set_used get_d_size_set_d_size)
  then show ?thesis using False by simp
qed

lemma ent_alloc_rest_free:
  assumes "fits m s e" and "ent_size m e \<noteq> unat s" and "ent_size m e \<noteq> unat s + 4"
  shows "\<not> get_used (fst (ent_alloc m e s)) (e + 4 + unat s)"
  using assms
  by (simp add: ent_alloc_split get_used_set_used_other get_used_set_d_size_other
      get_used_set_d_size get_used_set_used)

lemma ent_alloc_rest_size:
  assumes "fits m s e" and "unat s + 4 < ent_size m e"
  shows "ent_size (fst (ent_alloc m e s)) (e + 4 + unat s) = ent_size m e - unat s - 4"
proof -
  let ?d = "get_d_size m e"
  have le1: "s \<le> ?d" using assms(1) by (simp add: fits_def)
  have u1: "unat (?d - s) = unat ?d - unat s" using le1 by (rule unat_sub)
  have "unat (4 :: 32 word) \<le> unat (?d - s)" using u1 assms(2) by (simp add: ent_size_def)
  then have le2: "(4 :: 32 word) \<le> ?d - s" by (simp add: word_le_nat_alt)
  have u2: "unat (?d - s - 4) = unat ?d - unat s - 4"
    using unat_sub [OF le2] u1 by simp
  then have "unat (?d - s - 4) < 2 ^ 31" using get_d_size_bound [of m e] by simp
  then have tb: "take_bit 31 (?d - s - 4) = ?d - s - 4" by (rule take_bit31_small)
  have "get_d_size (fst (ent_alloc m e s)) (e + 4 + unat s) = ?d - s - 4"
    using assms tb
    by (simp add: ent_alloc_split get_d_size_set_used_other get_d_size_set_d_size_other
        get_d_size_set_d_size)
  then show ?thesis using u2 by (simp add: ent_size_def)
qed

text \<open>Bytes outside the entry's header and outside the header of the rest stay.\<close>

lemma ent_alloc_frame_keep:
  assumes "fits m s e" and "ent_size m e = unat s \<or> ent_size m e = unat s + 4"
    and "x < e \<or> e + 4 \<le> x"
  shows "fst (ent_alloc m e s) x = m x"
  using assms by (simp add: ent_alloc_keep set_used_frame set_d_size_frame)

lemma ent_alloc_frame_split:
  assumes "fits m s e" and "ent_size m e \<noteq> unat s" and "ent_size m e \<noteq> unat s + 4"
    and "x < e \<or> e + 4 \<le> x" and "x < e + 4 + unat s \<or> e + 8 + unat s \<le> x"
  shows "fst (ent_alloc m e s) x = m x"
proof -
  let ?n = "e + 4 + unat s"
  have out: "x < ?n \<or> ?n + 4 \<le> x" using assms(5) by auto
  have "fst (ent_alloc m e s) x =
          set_d_size (set_d_size (set_used m ?n False) ?n (get_d_size m e - s - 4)) e s x"
    using assms(1-4) by (simp add: ent_alloc_split set_used_frame)
  also have "\<dots> = set_d_size (set_used m ?n False) ?n (get_d_size m e - s - 4) x"
    using assms(4) by (rule set_d_size_frame)
  also have "\<dots> = set_used m ?n False x" using out by (rule set_d_size_frame)
  also have "\<dots> = m x" using out by (rule set_used_frame)
  finally show ?thesis .
qed

lemma mult4_gap:
  "a \<le> b \<Longrightarrow> b \<noteq> a \<Longrightarrow> b \<noteq> a + 4 \<Longrightarrow> a mod 4 = 0 \<Longrightarrow> b mod 4 = 0 \<Longrightarrow> a + 8 \<le> (b :: nat)"
  by presburger

lemma ent_alloc_frame_outside:
  assumes "fits m s e" and "ent_size m e mod 4 = 0" and "unat s mod 4 = 0"
    and "x < e \<or> e + 4 + ent_size m e \<le> x"
  shows "fst (ent_alloc m e s) x = m x"
proof (cases "ent_size m e = unat s \<or> ent_size m e = unat s + 4")
  case True
  have "x < e \<or> e + 4 \<le> x" using assms(4) by auto
  with assms(1) True show ?thesis by (rule ent_alloc_frame_keep)
next
  case False
  have "unat s \<le> ent_size m e" using assms(1) by (rule fits_le)
  then have big: "unat s + 8 \<le> ent_size m e" using False assms(2,3) by (intro mult4_gap) auto
  have a: "x < e \<or> e + 4 \<le> x" using assms(4) by auto
  have b: "x < e + 4 + unat s \<or> e + 8 + unat s \<le> x" using assms(4) big by auto
  show ?thesis using assms(1) False a b by (simp add: ent_alloc_frame_split)
qed

lemma fits_nat: "fits m s e \<longleftrightarrow> \<not> get_used m e \<and> unat s \<le> ent_size m e"
  by (simp add: fits_def ent_size_def word_le_nat_alt)

section \<open>The chain of entries\<close>

lemma entries_from_NULL: "entries_from c m NULL = []"
  by (simp add: entries_from.simps)

lemma entries_from_Cons:
  "e \<noteq> NULL \<Longrightarrow> entries_from c m e = e # entries_from c m (ent_get_next c m e)"
  by (subst entries_from.simps) simp

lemma ent_get_next_step:
  "e \<noteq> NULL \<Longrightarrow> ent_get_next c m e =
     (if mem_end c \<le> e + 4 + ent_size m e + 4 then NULL else e + 4 + ent_size m e)"
  by (simp add: ent_get_next_def Let_def hdr_size_def ent_size_def)

lemma ent_get_next_first: "ent_get_next c m NULL = work_mem c"
  by (simp add: ent_get_next_def)

lemma ent_get_next_same_size:
  "get_d_size m' e = get_d_size m e \<Longrightarrow> ent_get_next c m' e = ent_get_next c m e"
  by (simp add: ent_get_next_def Let_def)

text \<open>Entries ascend, and an entry lies behind the payload of every earlier one.\<close>

lemma entries_from_ge: "t \<in> set (entries_from c m e) \<Longrightarrow> e \<le> t"
proof (induction c m e rule: entries_from.induct)
  case (1 c m e)
  show ?case
  proof (cases "e = NULL")
    case True
    then show ?thesis using "1.prems" by (simp add: entries_from_NULL)
  next
    case False
    show ?thesis
    proof (cases "t = e")
      case True
      then show ?thesis by simp
    next
      case ne: False
      then have mem: "t \<in> set (entries_from c m (ent_get_next c m e))"
        using "1.prems" False by (simp add: entries_from_Cons)
      then have nn: "ent_get_next c m e \<noteq> NULL" by (auto simp: entries_from_NULL)
      have "ent_get_next c m e \<le> t" using "1.IH" False mem by simp
      moreover have "e < ent_get_next c m e"
        using nn False by (simp add: ent_get_next_step split: if_splits)
      ultimately show ?thesis by simp
    qed
  qed
qed

lemma entries_from_not_NULL: "t \<in> set (entries_from c m e) \<Longrightarrow> t \<noteq> NULL"
proof (induction c m e rule: entries_from.induct)
  case (1 c m e)
  show ?case
  proof (cases "e = NULL")
    case True
    then show ?thesis using "1.prems" by (simp add: entries_from_NULL)
  next
    case False
    then show ?thesis using "1.prems" "1.IH" by (auto simp: entries_from_Cons)
  qed
qed

lemma entries_from_tail:
  assumes "t \<in> set (entries_from c m e)" and "t \<noteq> e"
  shows "t \<in> set (entries_from c m (ent_get_next c m e)) \<and> e \<noteq> NULL
         \<and> ent_get_next c m e = e + 4 + ent_size m e \<and> e + 4 + ent_size m e + 4 < mem_end c"
proof -
  have nn: "e \<noteq> NULL" using assms(1) by (auto simp: entries_from_NULL)
  then have mem: "t \<in> set (entries_from c m (ent_get_next c m e))"
    using assms by (simp add: entries_from_Cons)
  then have "ent_get_next c m e \<noteq> NULL" by (auto simp: entries_from_NULL)
  then show ?thesis using nn mem by (simp add: ent_get_next_step split: if_splits)
qed

lemma entries_from_behind:
  assumes "t \<in> set (entries_from c m e)" and "t \<noteq> e"
  shows "e + 4 + ent_size m e \<le> t"
  using entries_from_tail [OF assms] entries_from_ge [of t c m "ent_get_next c m e"] by auto

lemma entries_from_spaced:
  "a \<in> set (entries_from c m e) \<Longrightarrow> t \<in> set (entries_from c m e) \<Longrightarrow> a < t
   \<Longrightarrow> a + 4 + ent_size m a \<le> t"
proof (induction c m e rule: entries_from.induct)
  case (1 c m e)
  show ?case
  proof (cases "a = e")
    case True
    then show ?thesis using entries_from_behind [of t c m e] "1.prems" by simp
  next
    case False
    have "e \<le> a" using "1.prems"(1) by (rule entries_from_ge)
    then have te: "t \<noteq> e" using "1.prems"(3) False by simp
    have ta: "a \<in> set (entries_from c m (ent_get_next c m e)) \<and> e \<noteq> NULL"
      using entries_from_tail [OF "1.prems"(1) False] by blast
    have tt: "t \<in> set (entries_from c m (ent_get_next c m e))"
      using entries_from_tail [OF "1.prems"(2) te] by blast
    show ?thesis using "1.IH" ta tt "1.prems"(3) by blast
  qed
qed

lemma entries_from_sub:
  "a \<in> set (entries_from c m t) \<Longrightarrow> t \<in> set (entries_from c m e)
   \<Longrightarrow> a \<in> set (entries_from c m e)"
proof (induction c m e rule: entries_from.induct)
  case (1 c m e)
  show ?case
  proof (cases "t = e")
    case True
    then show ?thesis using "1.prems" by simp
  next
    case False
    have "t \<in> set (entries_from c m (ent_get_next c m e)) \<and> e \<noteq> NULL"
      using entries_from_tail [OF "1.prems"(2) False] by blast
    then show ?thesis using "1.IH" "1.prems"(1) by (simp add: entries_from_Cons)
  qed
qed

text \<open>The chain is a function of the size fields of its own entries.\<close>

lemma entries_from_same_sizes:
  "(\<And>a. a \<in> set (entries_from c m e) \<Longrightarrow> get_d_size m' a = get_d_size m a)
   \<Longrightarrow> entries_from c m' e = entries_from c m e"
proof (induction c m e rule: entries_from.induct)
  case (1 c m e)
  show ?case
  proof (cases "e = NULL")
    case True
    then show ?thesis by (simp add: entries_from_NULL)
  next
    case False
    have "get_d_size m' e = get_d_size m e"
      using "1.prems" False by (simp add: entries_from_Cons)
    then have nx: "ent_get_next c m' e = ent_get_next c m e" by (rule ent_get_next_same_size)
    have "entries_from c m' (ent_get_next c m e) = entries_from c m (ent_get_next c m e)"
      using "1.IH" False "1.prems" by (simp add: entries_from_Cons)
    then show ?thesis using False nx by (simp add: entries_from_Cons)
  qed
qed

lemma tiled_from_same_sizes:
  "(\<And>a. a \<in> set (entries_from c m e) \<Longrightarrow> get_d_size m' a = get_d_size m a)
   \<Longrightarrow> e \<noteq> NULL \<Longrightarrow> tiled_from c m' e = tiled_from c m e"
proof (induction c m e rule: entries_from.induct)
  case (1 c m e)
  have here: "ent_size m' e = ent_size m e"
    using "1.prems" by (simp add: entries_from_Cons ent_size_def)
  let ?n = "e + 4 + ent_size m e"
  show ?case
  proof (cases "?n \<noteq> mem_end c \<and> ?n + 4 < mem_end c")
    case True
    then have nx: "ent_get_next c m e = ?n" using "1.prems"(2) by (simp add: ent_get_next_step)
    have "?n \<noteq> NULL" by (simp add: NULL_def)
    then have "tiled_from c m' ?n = tiled_from c m ?n"
      using "1.IH" "1.prems" nx by (simp add: entries_from_Cons)
    then show ?thesis using here True
      by (subst (1 2) tiled_from.simps) (simp add: Let_def hdr_size_def)
  next
    case False
    then show ?thesis using here
      by (subst (1 2) tiled_from.simps) (auto simp: Let_def hdr_size_def)
  qed
qed

text \<open>What a tiling says about each entry of the chain.\<close>

lemma tiled_from_step:
  "tiled_from c m e \<longleftrightarrow>
     ent_size m e mod 4 = 0 \<and>
     (e + 4 + ent_size m e = mem_end c \<or>
      (e + 4 + ent_size m e + 4 < mem_end c \<and> tiled_from c m (e + 4 + ent_size m e)))"
  by (subst tiled_from.simps) (auto simp: Let_def hdr_size_def)

lemma mod4_step: "(x :: nat) mod 4 = 0 \<Longrightarrow> d mod 4 = 0 \<Longrightarrow> (x + (4 + d)) mod 4 = 0"
  by presburger

lemma tiled_from_entries:
  "tiled_from c m e \<Longrightarrow> t \<in> set (entries_from c m e) \<Longrightarrow>
     tiled_from c m t \<and> ent_size m t mod 4 = 0 \<and> t + 4 + ent_size m t \<le> mem_end c
     \<and> (t - e) mod 4 = 0"
proof (induction c m e rule: entries_from.induct)
  case (1 c m e)
  show ?case
  proof (cases "t = e")
    case True
    then show ?thesis using "1.prems"(1) tiled_from_step [of c m e] by auto
  next
    case False
    note tl = entries_from_tail [OF "1.prems"(2) False]
    let ?n = "e + 4 + ent_size m e"
    have nx: "ent_get_next c m e = ?n" and nn: "e \<noteq> NULL"
      and mem: "t \<in> set (entries_from c m (ent_get_next c m e))"
      and lt: "?n + 4 < mem_end c"
      using tl by blast+
    have tn: "tiled_from c m ?n" and m4: "ent_size m e mod 4 = 0"
      using "1.prems"(1) lt tiled_from_step [of c m e] by auto
    have ih: "tiled_from c m t \<and> ent_size m t mod 4 = 0 \<and> t + 4 + ent_size m t \<le> mem_end c
       \<and> (t - ?n) mod 4 = 0"
      using "1.IH" [OF nn] tn mem unfolding nx by blast
    have "?n \<le> t" using mem entries_from_ge [of t c m ?n] unfolding nx by blast
    then have eq: "t - e = (t - ?n) + (4 + ent_size m e)" by simp
    have "((t - ?n) + (4 + ent_size m e)) mod 4 = 0" using ih m4 by (intro mod4_step) blast+
    then have "(t - e) mod 4 = 0" by (simp only: eq)
    then show ?thesis using ih by blast
  qed
qed

lemma entries_from_unfold:
  "e \<noteq> NULL \<Longrightarrow> entries_from c m e =
     e # (if mem_end c \<le> e + 4 + ent_size m e + 4 then []
          else entries_from c m (e + 4 + ent_size m e))"
  by (simp add: entries_from_Cons ent_get_next_step entries_from_NULL)

section \<open>The search of \<^verbatim>\<open>dm_alloc\<close>\<close>

text \<open>
  The loop tries the entries of the chain in order and stops at the first that fits; it
  writes to the store only there.
\<close>

lemma dm_alloc_loop_find:
  "dm_alloc_loop c s m e =
     (case find (fits m s) (entries_from c m (ent_get_next c m e)) of
        None \<Rightarrow> (m, NULL) | Some t \<Rightarrow> ent_alloc m t s)"
proof (induction c s m e rule: dm_alloc_loop.induct)
  case (1 c s m e)
  let ?e1 = "ent_get_next c m e"
  show ?case
  proof (cases "?e1 = NULL")
    case True
    then show ?thesis by (subst dm_alloc_loop.simps) (simp add: entries_from_NULL)
  next
    case False
    show ?thesis
    proof (cases "fits m s ?e1")
      case True
      then show ?thesis using False
        by (subst dm_alloc_loop.simps) (simp add: Let_def entries_from_Cons ent_alloc_NULL_iff)
    next
      case nf: False
      then have fail: "snd (ent_alloc m ?e1 s) = NULL" and same: "fst (ent_alloc m ?e1 s) = m"
        by (simp_all add: ent_alloc_no_fit)
      have "dm_alloc_loop c s m e = dm_alloc_loop c s m ?e1"
        using False fail same by (subst dm_alloc_loop.simps) (simp add: Let_def)
      moreover have "dm_alloc_loop c s m ?e1 =
          (case find (fits m s) (entries_from c m (ent_get_next c m ?e1)) of
             None \<Rightarrow> (m, NULL) | Some t \<Rightarrow> ent_alloc m t s)"
        using "1.IH" [OF refl False fail] unfolding same .
      ultimately show ?thesis using False nf by (simp add: entries_from_Cons)
    qed
  qed
qed

lemma dm_alloc_none:
  assumes "s \<noteq> 0" and "find (fits m (round_up4 s)) (entries c m) = None"
  shows "dm_alloc c s m = (m, NULL)"
  using assms by (simp add: dm_alloc_def Let_def dm_alloc_loop_find entries_def)

lemma dm_alloc_some:
  assumes "s \<noteq> 0" and "find (fits m (round_up4 s)) (entries c m) = Some t"
  shows "dm_alloc c s m =
           (if DM_AUTO_ZERO c
            then memset (fst (ent_alloc m t (round_up4 s))) (t + 4) 0 (unat (round_up4 s))
            else fst (ent_alloc m t (round_up4 s)), t + 4)"
proof -
  have f: "fits m (round_up4 s) t" using assms(2) by (auto simp: find_Some_iff)
  have "dm_alloc_loop c (round_up4 s) m NULL = ent_alloc m t (round_up4 s)"
    using assms(2) by (simp add: dm_alloc_loop_find entries_def)
  moreover have "snd (ent_alloc m t (round_up4 s)) = t + 4"
    using f by (simp add: ent_alloc_ptr hdr_size_def)
  ultimately show ?thesis using assms(1) by (simp add: dm_alloc_def Let_def NULL_def)
qed

lemma find_fits_cases:
  obtains (none) "find (fits m s) xs = None" "\<And>a. a \<in> set xs \<Longrightarrow> \<not> fits m s a"
  | (some) t where "find (fits m s) xs = Some t" "t \<in> set xs" "fits m s t"
proof (cases "find (fits m s) xs")
  case None
  then show ?thesis using none by (auto simp: find_None_iff)
next
  case (Some t)
  then show ?thesis using some [of t] by (auto simp: find_Some_iff)
qed

text \<open>The chain is in strictly ascending address order, so the first fit is the lowest.\<close>

lemma entries_from_sorted: "sorted_wrt (<) (entries_from c m e)"
proof (induction c m e rule: entries_from.induct)
  case (1 c m e)
  show ?case
  proof (cases "e = NULL")
    case True
    then show ?thesis by (simp add: entries_from_NULL)
  next
    case False
    have "e < a" if "a \<in> set (entries_from c m (ent_get_next c m e))" for a
    proof -
      have nn: "ent_get_next c m e \<noteq> NULL" using that by (auto simp: entries_from_NULL)
      have "ent_get_next c m e \<le> a" using that by (rule entries_from_ge)
      moreover have "e < ent_get_next c m e"
        using nn False by (simp add: ent_get_next_step split: if_splits)
      ultimately show ?thesis by simp
    qed
    then show ?thesis using "1.IH" False by (auto simp: entries_from_Cons)
  qed
qed

lemma find_sorted_first:
  "sorted_wrt (<) xs \<Longrightarrow> find P xs = Some t \<Longrightarrow> a \<in> set xs \<Longrightarrow> a < t \<Longrightarrow> \<not> P a"
  for t :: nat
proof (induction xs)
  case Nil
  then show ?case by simp
next
  case (Cons x xs)
  show ?case
  proof (cases "P x")
    case True
    then have "t = x" using Cons.prems(2) by simp
    then show ?thesis using Cons.prems by auto
  next
    case False
    then show ?thesis using Cons by (cases "a = x") auto
  qed
qed

section \<open>The chain after an allocation\<close>

lemma entries_from_after:
  assumes "\<And>x. e \<le> x \<Longrightarrow> m' x = m x"
  shows "entries_from c m' e = entries_from c m e"
proof (rule entries_from_same_sizes)
  fix a assume "a \<in> set (entries_from c m e)"
  then have "e \<le> a" by (rule entries_from_ge)
  then show "get_d_size m' a = get_d_size m a"
    using assms by (intro get_d_size_same_bytes) simp
qed

lemma tiled_from_after:
  assumes "\<And>x. e \<le> x \<Longrightarrow> m' x = m x" and "e \<noteq> NULL"
  shows "tiled_from c m' e = tiled_from c m e"
proof (rule tiled_from_same_sizes)
  fix a assume "a \<in> set (entries_from c m e)"
  then have "e \<le> a" by (rule entries_from_ge)
  then show "get_d_size m' a = get_d_size m a"
    using assms(1) by (intro get_d_size_same_bytes) simp
qed (rule assms(2))

lemma entries_from_prefix:
  "t \<in> set (entries_from c m e) \<Longrightarrow> (\<And>x. x < t \<Longrightarrow> m' x = m x) \<Longrightarrow>
     \<exists>xs. entries_from c m e = xs @ entries_from c m t \<and>
          entries_from c m' e = xs @ entries_from c m' t"
proof (induction c m e rule: entries_from.induct)
  case (1 c m e)
  show ?case
  proof (cases "t = e")
    case True
    then show ?thesis by simp
  next
    case False
    note tl = entries_from_tail [OF "1.prems"(1) False]
    have nn: "e \<noteq> NULL" and mem: "t \<in> set (entries_from c m (ent_get_next c m e))"
      using tl by blast+
    have "e + 4 + ent_size m e \<le> t" using "1.prems"(1) False by (rule entries_from_behind)
    then have "get_d_size m' e = get_d_size m e"
      using "1.prems"(2) by (intro get_d_size_same_bytes) simp
    then have nx: "ent_get_next c m' e = ent_get_next c m e" by (rule ent_get_next_same_size)
    obtain xs where xs: "entries_from c m (ent_get_next c m e) = xs @ entries_from c m t"
      "entries_from c m' (ent_get_next c m e) = xs @ entries_from c m' t"
      using "1.IH" [OF nn mem] "1.prems"(2) by blast
    have "entries_from c m e = (e # xs) @ entries_from c m t"
      using nn xs(1) by (simp add: entries_from_Cons)
    moreover have "entries_from c m' e = (e # xs) @ entries_from c m' t"
      using nn xs(2) nx by (simp add: entries_from_Cons)
    ultimately show ?thesis by blast
  qed
qed

lemma tiled_from_prefix:
  "tiled_from c m e \<Longrightarrow> t \<in> set (entries_from c m e) \<Longrightarrow> (\<And>x. x < t \<Longrightarrow> m' x = m x)
   \<Longrightarrow> tiled_from c m' t \<Longrightarrow> tiled_from c m' e"
proof (induction c m e rule: entries_from.induct)
  case (1 c m e)
  show ?case
  proof (cases "t = e")
    case True
    then show ?thesis using "1.prems"(4) by simp
  next
    case False
    note tl = entries_from_tail [OF "1.prems"(2) False]
    let ?n = "e + 4 + ent_size m e"
    have nn: "e \<noteq> NULL" and mem: "t \<in> set (entries_from c m (ent_get_next c m e))"
      and nx: "ent_get_next c m e = ?n" and lt: "?n + 4 < mem_end c"
      using tl by blast+
    have "?n \<le> t" using "1.prems"(2) False by (rule entries_from_behind)
    then have here: "ent_size m' e = ent_size m e"
      using "1.prems"(3) by (intro ent_size_same_bytes) simp
    have tn: "tiled_from c m ?n" and m4: "ent_size m e mod 4 = 0"
      using "1.prems"(1) lt tiled_from_step [of c m e] by auto
    have "tiled_from c m' ?n"
      using "1.IH" [OF nn] tn mem "1.prems"(3,4) unfolding nx by blast
    then show ?thesis using here m4 lt tiled_from_step [of c m' e] by simp
  qed
qed

lemma ent_alloc_keep_sizes:
  assumes "fits m s t" and "ent_size m t = unat s \<or> ent_size m t = unat s + 4"
    and "a = t \<or> t + 4 \<le> a"
  shows "get_d_size (fst (ent_alloc m t s)) a = get_d_size m a"
proof (cases "a = t")
  case True
  have "ent_size (fst (ent_alloc m t s)) t = ent_size m t"
    using assms(1,2) by (auto simp: ent_alloc_size)
  then show ?thesis using True by (simp add: ent_size_def word_unat_eq_iff)
next
  case False
  then have "t + 4 \<le> a" using assms(3) by simp
  then show ?thesis using assms(1,2)
    by (intro get_d_size_same_bytes ent_alloc_frame_keep) simp_all
qed

lemma ent_alloc_keep_entries:
  assumes "fits m s t" and "ent_size m t = unat s \<or> ent_size m t = unat s + 4"
  shows "entries_from c (fst (ent_alloc m t s)) t = entries_from c m t"
proof (rule entries_from_same_sizes)
  fix a assume a: "a \<in> set (entries_from c m t)"
  have "a = t \<or> t + 4 \<le> a" using entries_from_behind [OF a] by (cases "a = t") auto
  with assms show "get_d_size (fst (ent_alloc m t s)) a = get_d_size m a"
    by (rule ent_alloc_keep_sizes)
qed

lemma ent_alloc_keep_tiled:
  assumes "fits m s t" and "ent_size m t = unat s \<or> ent_size m t = unat s + 4"
    and "t \<noteq> NULL"
  shows "tiled_from c (fst (ent_alloc m t s)) t = tiled_from c m t"
proof (rule tiled_from_same_sizes)
  fix a assume a: "a \<in> set (entries_from c m t)"
  have "a = t \<or> t + 4 \<le> a" using entries_from_behind [OF a] by (cases "a = t") auto
  with assms(1,2) show "get_d_size (fst (ent_alloc m t s)) a = get_d_size m a"
    by (rule ent_alloc_keep_sizes)
qed (rule assms(3))

lemma ent_alloc_split_after:
  assumes "fits m s t" and "unat s + 4 < ent_size m t" and "t + 4 + ent_size m t \<le> x"
  shows "fst (ent_alloc m t s) x = m x"
  using assms by (intro ent_alloc_frame_split) simp_all

lemma ent_alloc_split_next:
  assumes "fits m s t" and "unat s + 4 < ent_size m t"
    and "t + 4 + ent_size m t \<le> mem_end c" and "t \<noteq> NULL"
  shows "ent_get_next c (fst (ent_alloc m t s)) t = t + 4 + unat s"
    and "ent_get_next c (fst (ent_alloc m t s)) (t + 4 + unat s) = ent_get_next c m t"
proof -
  let ?m' = "fst (ent_alloc m t s)"
  have sz: "ent_size ?m' t = unat s" using assms(1,2) by (simp add: ent_alloc_size)
  show "ent_get_next c ?m' t = t + 4 + unat s"
    using assms(2-4) sz by (simp add: ent_get_next_step)
  have rs: "ent_size ?m' (t + 4 + unat s) = ent_size m t - unat s - 4"
    using assms(1,2) by (rule ent_alloc_rest_size)
  have "t + 4 + unat s \<noteq> NULL" by (simp add: NULL_def)
  then show "ent_get_next c ?m' (t + 4 + unat s) = ent_get_next c m t"
    using assms(2,4) rs by (simp add: ent_get_next_step)
qed

lemma ent_alloc_split_entries:
  assumes "fits m s t" and "unat s + 4 < ent_size m t"
    and "t + 4 + ent_size m t \<le> mem_end c" and "t \<noteq> NULL"
  shows "entries_from c (fst (ent_alloc m t s)) t =
           t # (t + 4 + unat s) # entries_from c m (ent_get_next c m t)"
proof -
  let ?m' = "fst (ent_alloc m t s)"
  let ?x = "ent_get_next c m t"
  have rest: "entries_from c ?m' ?x = entries_from c m ?x"
  proof (cases "?x = NULL")
    case True
    then show ?thesis by (simp add: entries_from_NULL)
  next
    case False
    then have x: "?x = t + 4 + ent_size m t"
      using assms(4) by (simp add: ent_get_next_step split: if_splits)
    show ?thesis
    proof (rule entries_from_after)
      fix y assume "?x \<le> y"
      then have "t + 4 + ent_size m t \<le> y" using x by simp
      with assms(1,2) show "?m' y = m y" by (rule ent_alloc_split_after)
    qed
  qed
  have n: "t + 4 + unat s \<noteq> NULL" by (simp add: NULL_def)
  show ?thesis
    using assms(4) n rest ent_alloc_split_next [OF assms]
    by (simp add: entries_from_Cons [of t] entries_from_Cons [of "t + 4 + unat s"])
qed

lemma mod4_rest: "k mod 4 = 0 \<Longrightarrow> d mod 4 = 0 \<Longrightarrow> (d - k - 4) mod 4 = (0 :: nat)"
  by presburger

lemma ent_alloc_split_tiled:
  assumes "fits m s t" and "unat s + 4 < ent_size m t" and "tiled_from c m t"
    and "unat s mod 4 = 0"
  shows "tiled_from c (fst (ent_alloc m t s)) t"
proof -
  let ?m' = "fst (ent_alloc m t s)"
  let ?n = "t + 4 + unat s"
  let ?x = "t + 4 + ent_size m t"
  have d4: "ent_size m t mod 4 = 0"
    and old: "?x = mem_end c \<or> (?x + 4 < mem_end c \<and> tiled_from c m ?x)"
    using assms(3) tiled_from_step [of c m t] by auto
  have sz: "ent_size ?m' t = unat s" using assms(1,2) by (simp add: ent_alloc_size)
  have rs: "ent_size ?m' ?n = ent_size m t - unat s - 4"
    using assms(1,2) by (rule ent_alloc_rest_size)
  have r4: "ent_size ?m' ?n mod 4 = 0" using rs mod4_rest [OF assms(4) d4] by simp
  have nx: "?n + 4 + ent_size ?m' ?n = ?x" using rs assms(2) by simp
  have same: "tiled_from c ?m' ?x = tiled_from c m ?x"
  proof (rule tiled_from_after)
    fix y assume "?x \<le> y"
    with assms(1,2) show "?m' y = m y" by (rule ent_alloc_split_after)
  qed (simp add: NULL_def)
  have "tiled_from c ?m' ?n \<longleftrightarrow> ent_size ?m' ?n mod 4 = 0 \<and>
      (?x = mem_end c \<or> (?x + 4 < mem_end c \<and> tiled_from c ?m' ?x))"
    using tiled_from_step [of c ?m' ?n] unfolding nx .
  then have tn: "tiled_from c ?m' ?n" using old r4 same by blast
  have lt: "?n + 4 < mem_end c" using old assms(2) by auto
  have "tiled_from c ?m' t \<longleftrightarrow> unat s mod 4 = 0 \<and>
      (?n = mem_end c \<or> (?n + 4 < mem_end c \<and> tiled_from c ?m' ?n))"
    using tiled_from_step [of c ?m' t] unfolding sz .
  then show ?thesis using tn lt assms(4) by blast
qed

text \<open>
  An allocation in a tiled arena: the chain keeps its entries, gains the entry of the
  rest when the block is split, and stays a tiling.
\<close>

lemma ent_alloc_in_chain:
  assumes "tiled_from c m e" and "t \<in> set (entries_from c m e)" and "fits m s t"
    and "unat s mod 4 = 0"
  shows "tiled_from c (fst (ent_alloc m t s)) e"
    and "\<exists>xs ys. entries_from c m e = xs @ t # ys \<and>
           entries_from c (fst (ent_alloc m t s)) e =
             xs @ t # (if unat s + 4 < ent_size m t then [t + 4 + unat s] else []) @ ys"
proof -
  let ?m' = "fst (ent_alloc m t s)"
  note at = tiled_from_entries [OF assms(1,2)]
  have tt: "tiled_from c m t" and d4: "ent_size m t mod 4 = 0"
    and fit: "t + 4 + ent_size m t \<le> mem_end c"
    using at by blast+
  have nn: "t \<noteq> NULL" using assms(2) by (rule entries_from_not_NULL)
  have le: "unat s \<le> ent_size m t" using assms(3) by (rule fits_le)
  have below: "?m' x = m x" if "x < t" for x
    using assms(3) d4 assms(4) that by (intro ent_alloc_frame_outside) simp_all
  obtain xs where xs: "entries_from c m e = xs @ entries_from c m t"
    "entries_from c ?m' e = xs @ entries_from c ?m' t"
    using entries_from_prefix [OF assms(2), of ?m'] below by blast
  have old: "entries_from c m t = t # entries_from c m (ent_get_next c m t)"
    using nn by (rule entries_from_Cons)
  show "tiled_from c ?m' e"
  proof (rule tiled_from_prefix [OF assms(1,2)])
    show "tiled_from c ?m' t"
    proof (cases "unat s + 4 < ent_size m t")
      case True
      with assms(3) show ?thesis using tt assms(4) by (rule ent_alloc_split_tiled)
    next
      case False
      then have "ent_size m t = unat s \<or> ent_size m t = unat s + 4"
        using le d4 assms(4) mult4_gap [of "unat s" "ent_size m t"] by fastforce
      then show ?thesis using ent_alloc_keep_tiled [OF assms(3) _ nn] tt by simp
    qed
  qed (rule below)
  show "\<exists>xs ys. entries_from c m e = xs @ t # ys \<and>
           entries_from c ?m' e =
             xs @ t # (if unat s + 4 < ent_size m t then [t + 4 + unat s] else []) @ ys"
  proof (cases "unat s + 4 < ent_size m t")
    case True
    have "entries_from c ?m' t = t # (t + 4 + unat s) # entries_from c m (ent_get_next c m t)"
      using assms(3) True fit nn by (rule ent_alloc_split_entries)
    then show ?thesis using xs old True by auto
  next
    case False
    then have "ent_size m t = unat s \<or> ent_size m t = unat s + 4"
      using le d4 assms(4) mult4_gap [of "unat s" "ent_size m t"] by fastforce
    then have "entries_from c ?m' t = entries_from c m t"
      using assms(3) by (intro ent_alloc_keep_entries)
    then show ?thesis using xs old False by auto
  qed
qed

section \<open>Initialisation and release\<close>

lemma conf_ok_size: "conf_ok c \<Longrightarrow> unat (of_nat (DM_MEM_SIZE c) - of_nat hdr_size :: 32 word) = DM_MEM_SIZE c - 4"
proof -
  assume ok: "conf_ok c"
  then have b: "4 \<le> DM_MEM_SIZE c" "DM_MEM_SIZE c < 2 ^ 32"
    by (auto simp: conf_ok_def hdr_size_def)
  have n: "unat (of_nat (DM_MEM_SIZE c) :: 32 word) = DM_MEM_SIZE c"
    using b(2) by (simp add: unat_of_nat take_bit_nat_eq_self)
  have h: "unat (of_nat hdr_size :: 32 word) = 4" by (simp add: hdr_size_def)
  have "(of_nat hdr_size :: 32 word) \<le> of_nat (DM_MEM_SIZE c)"
    using n h b(1) by (simp add: word_le_nat_alt)
  then show ?thesis using unat_sub [of "of_nat hdr_size :: 32 word" "of_nat (DM_MEM_SIZE c)"] n h
    by simp
qed

lemma dm_init_used: "\<not> get_used (dm_init c m) (work_mem c)"
  by (simp add: dm_init_def Let_def get_used_set_d_size get_used_set_used)

lemma dm_init_size: "conf_ok c \<Longrightarrow> ent_size (dm_init c m) (work_mem c) = DM_MEM_SIZE c - 4"
proof -
  assume ok: "conf_ok c"
  let ?w = "of_nat (DM_MEM_SIZE c) - of_nat hdr_size :: 32 word"
  have u: "unat ?w = DM_MEM_SIZE c - 4" using ok by (rule conf_ok_size)
  then have "unat ?w < 2 ^ 31" using ok by (simp add: conf_ok_def hdr_size_def)
  then have "take_bit 31 ?w = ?w" by (rule take_bit31_small)
  then show ?thesis using u
    by (simp add: dm_init_def Let_def ent_size_def get_d_size_set_d_size)
qed

lemma dm_init_frame:
  "x < work_mem c \<or> work_mem c + 4 \<le> x \<Longrightarrow> dm_init c m x = m x"
  by (simp add: dm_init_def Let_def set_d_size_frame set_used_frame)

lemma dm_init_tiled: "conf_ok c \<Longrightarrow> tiled_from c (dm_init c m) (work_mem c)"
proof -
  assume ok: "conf_ok c"
  have s: "ent_size (dm_init c m) (work_mem c) = DM_MEM_SIZE c - 4" using ok by (rule dm_init_size)
  have "4 \<le> DM_MEM_SIZE c" and "DM_MEM_SIZE c mod 4 = 0"
    using ok by (auto simp: conf_ok_def hdr_size_def)
  then have "(DM_MEM_SIZE c - 4) mod 4 = 0" and "work_mem c + 4 + (DM_MEM_SIZE c - 4) = mem_end c"
    by (presburger, simp add: mem_end_def)
  then show ?thesis using s by (subst tiled_from_step) simp
qed

lemma dm_init_inv: "conf_ok c \<Longrightarrow> dm_inv c (dm_init c m)"
  by (simp add: dm_inv_def dm_init_tiled)

lemma conf_ok_work_mem: "conf_ok c \<Longrightarrow> work_mem c \<noteq> NULL"
  by (simp add: conf_ok_def NULL_def)

lemma dm_init_entries: "conf_ok c \<Longrightarrow> entries c (dm_init c m) = [work_mem c]"
proof -
  assume ok: "conf_ok c"
  have s: "ent_size (dm_init c m) (work_mem c) = DM_MEM_SIZE c - 4" using ok by (rule dm_init_size)
  have "4 \<le> DM_MEM_SIZE c" using ok by (simp add: conf_ok_def hdr_size_def)
  then have "ent_get_next c (dm_init c m) (work_mem c) = NULL"
    using s conf_ok_work_mem [OF ok] by (simp add: ent_get_next_step mem_end_def)
  then show ?thesis using conf_ok_work_mem [OF ok]
    by (simp add: entries_def ent_get_next_first entries_from_Cons entries_from_NULL)
qed

text \<open>The payload address \<open>p\<close> of a used entry of the chain: an outstanding allocation.\<close>

lemma is_allocated_entry:
  assumes "is_allocated c m p"
  shows "p - hdr_size \<in> set (entries c m)" and "get_used m (p - hdr_size)"
    and "p = (p - hdr_size) + 4" and "p \<noteq> NULL"
  using assms by (auto simp: is_allocated_def hdr_size_def NULL_def)

lemma dm_free_eq:
  "p \<noteq> zero_mem c \<Longrightarrow> p \<noteq> NULL \<Longrightarrow> dm_free c p m = set_used m (p - hdr_size) False"
  by (simp add: dm_free_def)

lemma set_used_load32: "load32 (set_used m e False) e = load32 m e AND NOT 1"
  by (simp add: set_used_def load32_store32_same)

lemma entries_from_apart:
  assumes "a \<in> set (entries_from c m e)" and "t \<in> set (entries_from c m e)" and "a \<noteq> t"
  shows "t + 4 \<le> a \<or> a + 4 \<le> t"
proof (cases "a < t")
  case True
  then show ?thesis using entries_from_spaced [OF assms(1,2)] by simp
next
  case False
  then have "t < a" using assms(3) by simp
  then show ?thesis using entries_from_spaced [OF assms(2,1)] by simp
qed

lemma set_used_entries:
  assumes "t \<in> set (entries_from c m e)"
  shows "entries_from c (set_used m t u) e = entries_from c m e"
proof (rule entries_from_same_sizes)
  fix a assume a: "a \<in> set (entries_from c m e)"
  show "get_d_size (set_used m t u) a = get_d_size m a"
  proof (cases "a = t")
    case True
    then show ?thesis by (simp add: get_d_size_set_used)
  next
    case False
    with a assms have "t + 4 \<le> a \<or> a + 4 \<le> t" by (rule entries_from_apart)
    then show ?thesis by (rule get_d_size_set_used_other)
  qed
qed

lemma set_used_tiled:
  assumes "t \<in> set (entries_from c m e)" and "e \<noteq> NULL"
  shows "tiled_from c (set_used m t u) e = tiled_from c m e"
proof (rule tiled_from_same_sizes)
  fix a assume a: "a \<in> set (entries_from c m e)"
  show "get_d_size (set_used m t u) a = get_d_size m a"
  proof (cases "a = t")
    case True
    then show ?thesis by (simp add: get_d_size_set_used)
  next
    case False
    with a assms(1) have "t + 4 \<le> a \<or> a + 4 \<le> t" by (rule entries_from_apart)
    then show ?thesis by (rule get_d_size_set_used_other)
  qed
qed (rule assms(2))

subsection \<open>Sundries for the sentinel and for \<^verbatim>\<open>dm_realloc\<close>\<close>

lemma min_u32_eq: "min_u32 a b = min a b"
  by (auto simp: min_u32_def min_def)

lemma memcpy_none: "memcpy m d s 0 = m"
  by (rule ext) (auto simp: memcpy_def)

lemma conf_ok_zero_mem:
  assumes "conf_ok c"
  shows "zero_mem c \<noteq> NULL" and "work_mem c \<le> p \<Longrightarrow> p < mem_end c \<Longrightarrow> p \<noteq> zero_mem c"
  using assms by (auto simp: conf_ok_def NULL_def)

lemma dm_realloc_fail:
  "dm_alloc c s m = (m, NULL) \<Longrightarrow> dm_realloc c p s m = (m, NULL)"
  by (simp add: dm_realloc_def Let_def)

section \<open>Writes into a payload\<close>

lemma memset_frame: "x < d \<or> d + n \<le> x \<Longrightarrow> memset m d v n x = m x"
  by (auto simp: memset_def)

lemma memcpy_frame: "x < d \<or> d + n \<le> x \<Longrightarrow> memcpy m d s n x = m x"
  by (auto simp: memcpy_def)

lemma memcpy_copied: "i < n \<Longrightarrow> memcpy m d s n (d + i) = m (s + i)"
  by (simp add: memcpy_def)

text \<open>
  A store that differs from \<open>m\<close> only inside the payload of one entry of the chain has
  the same headers at all entries, hence the same chain and the same tiling.
\<close>

lemma payload_write_header:
  assumes "t \<in> set (entries_from c m e)" and "a \<in> set (entries_from c m e)"
    and "\<And>x. x < t + 4 \<or> t + 4 + ent_size m t \<le> x \<Longrightarrow> m' x = m x"
    and "a \<le> x" and "x < a + 4"
  shows "m' x = m x"
proof -
  consider "a = t" | "a < t" | "t < a" by linarith
  then have "x < t + 4 \<or> t + 4 + ent_size m t \<le> x"
  proof cases
    case 1
    then show ?thesis using assms(5) by simp
  next
    case 2
    then have "a + 4 + ent_size m a \<le> t" using assms(1,2) entries_from_spaced by blast
    then show ?thesis using assms(5) by simp
  next
    case 3
    then have "t + 4 + ent_size m t \<le> a" using assms(1,2) entries_from_spaced by blast
    then show ?thesis using assms(4) by simp
  qed
  then show ?thesis by (rule assms(3))
qed

lemma payload_write_fields:
  assumes "t \<in> set (entries_from c m e)" and "a \<in> set (entries_from c m e)"
    and "\<And>x. x < t + 4 \<or> t + 4 + ent_size m t \<le> x \<Longrightarrow> m' x = m x"
  shows "get_d_size m' a = get_d_size m a" and "get_used m' a = get_used m a"
  using payload_write_header [OF assms]
  by (intro get_d_size_same_bytes get_used_same_bytes; blast)+

lemma payload_write_entries:
  assumes "t \<in> set (entries_from c m e)"
    and "\<And>x. x < t + 4 \<or> t + 4 + ent_size m t \<le> x \<Longrightarrow> m' x = m x"
  shows "entries_from c m' e = entries_from c m e"
  using payload_write_fields(1) [OF assms(1) _ assms(2)]
  by (intro entries_from_same_sizes) blast

lemma payload_write_tiled:
  assumes "t \<in> set (entries_from c m e)"
    and "\<And>x. x < t + 4 \<or> t + 4 + ent_size m t \<le> x \<Longrightarrow> m' x = m x"
  shows "tiled_from c m' e = tiled_from c m e"
proof (rule tiled_from_same_sizes)
  show "e \<noteq> NULL" using assms(1) by (auto simp: entries_from_NULL)
next
  fix a assume "a \<in> set (entries_from c m e)"
  with assms(1) show "get_d_size m' a = get_d_size m a"
    using assms(2) by (rule payload_write_fields)
qed

section \<open>A successful allocation in a well-formed arena\<close>

lemma entries_eq: "entries c m = entries_from c m (work_mem c)"
  by (simp add: entries_def ent_get_next_first)

text \<open>
  Everything the later results use about a successful \<^verbatim>\<open>dm_alloc\<close>: \<open>t\<close> is the entry
  taken, \<open>m1\<close> the store after \<^verbatim>\<open>ent_alloc\<close>, before the optional zero fill.
\<close>

lemma dm_alloc_success:
  assumes "s \<noteq> 0" and "snd (dm_alloc c s m) \<noteq> NULL"
  obtains t where "find (fits m (round_up4 s)) (entries c m) = Some t"
    and "t \<in> set (entries c m)" and "fits m (round_up4 s) t"
    and "snd (dm_alloc c s m) = t + 4"
    and "fst (dm_alloc c s m) =
           (if DM_AUTO_ZERO c
            then memset (fst (ent_alloc m t (round_up4 s))) (t + 4) 0 (unat (round_up4 s))
            else fst (ent_alloc m t (round_up4 s)))"
proof (cases rule: find_fits_cases [of m "round_up4 s" "entries c m"])
  case none
  then have "dm_alloc c s m = (m, NULL)" using assms(1) by (simp add: dm_alloc_none)
  then show ?thesis using assms(2) by simp
next
  case (some t)
  then show ?thesis using that [of t] dm_alloc_some [OF assms(1) some(1)] by simp
qed

lemma zero_fill_frame:
  assumes "fits m k t"
  shows "x < t + 4 \<or> t + 4 + ent_size (fst (ent_alloc m t k)) t \<le> x \<Longrightarrow>
         (if z then memset (fst (ent_alloc m t k)) (t + 4) 0 (unat k)
          else fst (ent_alloc m t k)) x = fst (ent_alloc m t k) x"
proof -
  assume x: "x < t + 4 \<or> t + 4 + ent_size (fst (ent_alloc m t k)) t \<le> x"
  have "unat k \<le> ent_size (fst (ent_alloc m t k)) t"
    using ent_alloc_size [OF assms] by simp
  then have "x < t + 4 \<or> t + 4 + unat k \<le> x" using x by auto
  then show ?thesis by (simp add: memset_frame)
qed

lemma dm_alloc_at:
  fixes c m s t
  defines "m' \<equiv> fst (dm_alloc c s m)" and "k \<equiv> unat (round_up4 s)" and "d \<equiv> ent_size m t"
  assumes inv: "dm_inv c m" and nz: "s \<noteq> 0"
    and found: "find (fits m (round_up4 s)) (entries c m) = Some t"
  shows "snd (dm_alloc c s m) = t + 4"
    and "t \<in> set (entries c m)" and "\<not> get_used m t" and "k \<le> d"
    and "d = k \<or> d = k + 4 \<or> k + 8 \<le> d"
    and "t + 4 + d \<le> mem_end c" and "(t - work_mem c) mod 4 = 0"
    and "dm_inv c m'"
    and "\<exists>xs ys. entries c m = xs @ t # ys \<and>
           entries c m' = xs @ t # (if k + 4 < d then [t + 4 + k] else []) @ ys"
    and "get_used m' t" and "ent_size m' t = (if d = k + 4 then k + 4 else k)"
    and "k + 4 < d \<Longrightarrow> \<not> get_used m' (t + 4 + k) \<and> ent_size m' (t + 4 + k) = d - k - 4"
    and "\<And>x. x < t \<or> t + 4 + d \<le> x \<Longrightarrow> m' x = m x"
proof -
  let ?s = "round_up4 s"
  let ?m1 = "fst (ent_alloc m t ?s)"
  have ok: "conf_ok c" and til: "tiled_from c m (work_mem c)"
    using inv by (simp_all add: dm_inv_def)
  have f: "fits m ?s t" and mem: "t \<in> set (entries c m)"
    using found by (auto simp: find_Some_iff)
  have mem': "t \<in> set (entries_from c m (work_mem c))" using mem by (simp add: entries_eq)
  have al: "dm_alloc c s m =
      (if DM_AUTO_ZERO c then memset ?m1 (t + 4) 0 (unat ?s) else ?m1, t + 4)"
    using nz found by (rule dm_alloc_some)
  show "snd (dm_alloc c s m) = t + 4" using al by simp
  show "t \<in> set (entries c m)" by (rule mem)
  show "\<not> get_used m t" using f by (simp add: fits_def)
  show kd: "k \<le> d" using f unfolding k_def d_def by (rule fits_le)
  have k4: "k mod 4 = 0" unfolding k_def by (rule round_up4_mod4)
  note at = tiled_from_entries [OF til mem']
  have d4: "d mod 4 = 0" using at by (simp add: d_def)
  show cases: "d = k \<or> d = k + 4 \<or> k + 8 \<le> d"
    using kd k4 d4 mult4_gap [of k d] by auto
  show "t + 4 + d \<le> mem_end c" using at by (simp add: d_def)
  show "(t - work_mem c) mod 4 = 0" using at by simp
  have m'_eq: "m' = (if DM_AUTO_ZERO c then memset ?m1 (t + 4) 0 (unat ?s) else ?m1)"
    using al by (simp add: m'_def)
  have fill: "m' x = ?m1 x" if "x < t + 4 \<or> t + 4 + ent_size ?m1 t \<le> x" for x
    unfolding m'_eq using f that by (rule zero_fill_frame)
  have til1: "tiled_from c ?m1 (work_mem c)"
    and "\<exists>xs ys. entries_from c m (work_mem c) = xs @ t # ys \<and>
           entries_from c ?m1 (work_mem c) =
             xs @ t # (if unat ?s + 4 < ent_size m t then [t + 4 + unat ?s] else []) @ ys"
    using ent_alloc_in_chain [OF til mem' f] k4 by (simp_all add: k_def)
  then obtain xs ys where xy: "entries c m = xs @ t # ys"
    "entries c ?m1 = xs @ t # (if k + 4 < d then [t + 4 + k] else []) @ ys"
    unfolding k_def d_def entries_eq by blast
  have mem1: "t \<in> set (entries_from c ?m1 (work_mem c))"
    using xy(2) by (simp add: entries_eq)
  have "entries c m' = entries c ?m1"
    unfolding entries_eq using mem1 fill by (rule payload_write_entries)
  then show "\<exists>xs ys. entries c m = xs @ t # ys \<and>
           entries c m' = xs @ t # (if k + 4 < d then [t + 4 + k] else []) @ ys"
    using xy by auto
  have "tiled_from c m' (work_mem c) = tiled_from c ?m1 (work_mem c)"
    using mem1 fill by (rule payload_write_tiled)
  then show "dm_inv c m'" using ok til1 by (simp add: dm_inv_def)
  have "get_used m' t = get_used ?m1 t" and st: "get_d_size m' t = get_d_size ?m1 t"
    using payload_write_fields [OF mem1 mem1, of m'] fill by blast+
  then show "get_used m' t" using ent_alloc_used [OF f] by simp
  show "ent_size m' t = (if d = k + 4 then k + 4 else k)"
    using st ent_alloc_size [OF f] by (simp add: ent_size_def k_def d_def)
  have sz1: "ent_size ?m1 t \<le> d" using ent_alloc_size [OF f] kd by (auto simp: k_def d_def)
  show "m' x = m x" if "x < t \<or> t + 4 + d \<le> x" for x
  proof -
    have "m' x = ?m1 x" using that sz1 by (intro fill) auto
    also have "?m1 x = m x"
      using f at k4 that by (intro ent_alloc_frame_outside) (simp_all add: k_def d_def)
    finally show ?thesis .
  qed
  show "\<not> get_used m' (t + 4 + k) \<and> ent_size m' (t + 4 + k) = d - k - 4" if big: "k + 4 < d"
  proof -
    have memn: "t + 4 + k \<in> set (entries_from c ?m1 (work_mem c))"
      using xy(2) big by (simp add: entries_eq)
    have "get_used m' (t + 4 + k) = get_used ?m1 (t + 4 + k)"
      and "get_d_size m' (t + 4 + k) = get_d_size ?m1 (t + 4 + k)"
      using payload_write_fields [OF mem1 memn, of m'] fill by blast+
    moreover have "\<not> get_used ?m1 (t + 4 + k)"
      using ent_alloc_rest_free [OF f] big by (simp add: k_def d_def)
    moreover have "ent_size ?m1 (t + 4 + k) = d - k - 4"
      using ent_alloc_rest_size [OF f] big by (simp add: k_def d_def)
    ultimately show ?thesis by (simp add: ent_size_def)
  qed
qed

lemma mod4_plus4: "(b :: nat) mod 4 = 0 \<Longrightarrow> x mod 4 = 0 \<Longrightarrow> b \<le> t \<Longrightarrow> (t - b) mod 4 = 0
  \<Longrightarrow> (t + 4) mod 4 = 0"
  by presburger

section \<open>First fit\<close>

text \<open>
  The search, for requests whose rounding does not wrap.  For \<open>0 < s \<le> 2 ^ 32 - 4\<close> let \<open>r\<close> be \<open>s\<close> rounded up to the next multiple
  of 4.  If some entry of the chain is free with size at least \<open>r\<close>, \<^verbatim>\<open>dm_alloc(s)\<close>
  returns the payload address of the lowest such entry and marks it used; otherwise it
  returns \<^verbatim>\<open>NULL\<close> and leaves the store as it is.  This holds in every store.
\<close>

lemma alloc_first_fit:
  fixes c m s
  defines "r \<equiv> (unat s + 3) div 4 * 4" and "p \<equiv> snd (dm_alloc c s m)"
  assumes "s \<noteq> 0" and "unat s \<le> 2 ^ 32 - 4"
  shows "if \<exists>e \<in> set (entries c m). \<not> get_used m e \<and> r \<le> ent_size m e
         then p = (p - hdr_size) + hdr_size \<and> p - hdr_size \<in> set (entries c m) \<and>
              \<not> get_used m (p - hdr_size) \<and> r \<le> ent_size m (p - hdr_size) \<and>
              (\<forall>a \<in> set (entries c m). a < p - hdr_size \<longrightarrow>
                 \<not> (\<not> get_used m a \<and> r \<le> ent_size m a)) \<and>
              get_used (fst (dm_alloc c s m)) (p - hdr_size)
         else dm_alloc c s m = (m, NULL)"
proof -
  let ?k = "round_up4 s"
  have k: "unat ?k = r" unfolding r_def using assms(4) by (rule unat_round_up4_small)
  have fit: "fits m ?k e \<longleftrightarrow> \<not> get_used m e \<and> r \<le> ent_size m e" for e
    by (simp add: fits_nat k)
  show ?thesis
  proof (cases rule: find_fits_cases [of m ?k "entries c m"])
    case none
    then have "dm_alloc c s m = (m, NULL)" using assms(3) by (simp add: dm_alloc_none)
    then show ?thesis using none(2) fit by auto
  next
    case (some t)
    note al = dm_alloc_some [OF assms(3) some(1)]
    have pt: "p = t + 4" using al by (simp add: p_def)
    have first: "\<not> fits m ?k a" if "a \<in> set (entries c m)" and "a < t" for a
      using entries_from_sorted [of c m "work_mem c"] some(1) that
      unfolding entries_eq by (rule find_sorted_first)
    let ?m1 = "fst (ent_alloc m t ?k)"
    have "fst (dm_alloc c s m) x = ?m1 x" if "x < t + 4" for x
      using al that by (simp add: memset_frame)
    then have "get_used (fst (dm_alloc c s m)) t = get_used ?m1 t"
      by (intro get_used_same_bytes) simp
    then have "get_used (fst (dm_alloc c s m)) t" using ent_alloc_used [OF some(3)] by simp
    then show ?thesis using some(2,3) first fit pt by (auto simp: hdr_size_def)
  qed
qed

text \<open>
  Exhaustion, with the size as the code rounds it.  For every request \<open>s > 0\<close>: when no
  entry of the chain is free with a size of at least the rounded size, \<^verbatim>\<open>dm_alloc(s)\<close>
  returns \<^verbatim>\<open>NULL\<close> and the store is the one before the call, and so does
  \<^verbatim>\<open>dm_realloc(p, s)\<close> for every \<open>p\<close>: the block of \<open>p\<close> is neither changed nor freed.
  This holds in every store.
\<close>

lemma alloc_exhausted:
  assumes "s \<noteq> 0"
    and "\<forall>e \<in> set (entries c m). \<not> (\<not> get_used m e \<and> unat (round_up4 s) \<le> ent_size m e)"
  shows "dm_alloc c s m = (m, NULL) \<and> dm_realloc c p s m = (m, NULL)"
proof -
  have "\<not> fits m (round_up4 s) e" if "e \<in> set (entries c m)" for e
    using assms(2) that by (simp add: fits_nat)
  then have "find (fits m (round_up4 s)) (entries c m) = None"
    by (simp add: find_None_iff)
  with assms(1) have "dm_alloc c s m = (m, NULL)" by (rule dm_alloc_none)
  then show ?thesis by (simp add: dm_realloc_fail)
qed

section \<open>Reallocation\<close>

lemma dm_realloc_copy:
  assumes "snd (dm_alloc c s m) \<noteq> NULL" and "p \<noteq> NULL"
    and "dm_get_size c p (fst (dm_alloc c s m)) \<noteq> 0"
  shows "dm_realloc c p s m =
           (dm_free c p (memcpy (fst (dm_alloc c s m)) (snd (dm_alloc c s m)) p
              (unat (min s (dm_get_size c p (fst (dm_alloc c s m)))))),
            snd (dm_alloc c s m))"
  using assms by (simp add: dm_realloc_def Let_def min_u32_eq)

lemma dm_realloc_plain:
  assumes "p = NULL \<or> p = zero_mem c"
  shows "dm_realloc c p s m = dm_alloc c s m"
  using assms by (auto simp: dm_realloc_def Let_def dm_get_size_def)

lemma memset_payload:
  assumes "t \<in> set (entries c m)" and "t + 4 \<le> d" and "d + n \<le> t + 4 + ent_size m t"
  shows "entries c (memset m d v n) = entries c m"
    and "dm_inv c (memset m d v n) = dm_inv c m"
    and "\<And>a. a \<in> set (entries c m) \<Longrightarrow>
           get_used (memset m d v n) a = get_used m a \<and> ent_size (memset m d v n) a = ent_size m a"
proof -
  have mem: "t \<in> set (entries_from c m (work_mem c))" using assms(1) by (simp add: entries_eq)
  have fr: "memset m d v n x = m x" if "x < t + 4 \<or> t + 4 + ent_size m t \<le> x" for x
    using that assms(2,3) by (intro memset_frame) auto
  show "entries c (memset m d v n) = entries c m"
    unfolding entries_eq using mem fr by (rule payload_write_entries)
  show "dm_inv c (memset m d v n) = dm_inv c m"
    unfolding dm_inv_def using payload_write_tiled [OF mem, of "memset m d v n"] fr by simp
  show "get_used (memset m d v n) a = get_used m a \<and> ent_size (memset m d v n) a = ent_size m a"
    if "a \<in> set (entries c m)" for a
  proof -
    have "a \<in> set (entries_from c m (work_mem c))" using that by (simp add: entries_eq)
    then show ?thesis
      using payload_write_fields [OF mem _ fr, of a] by (simp add: ent_size_def)
  qed
qed

subsection \<open>The tiling, spelled out\<close>

text \<open>
  What a well-formed arena is, in the words of the data model: the chain starts at the
  start of the arena, each entry stands where the block before it ends, and the last
  block ends at the end of the arena.
\<close>

lemma entries_from_adjacent:
  "successively (\<lambda>a b. b = a + hdr_size + ent_size m a) (entries_from c m e)"
proof (induction c m e rule: entries_from.induct)
  case (1 c m e)
  show ?case
  proof (cases "e = NULL")
    case True
    then show ?thesis by (simp add: entries_from_NULL)
  next
    case False
    show ?thesis
    proof (cases "ent_get_next c m e = NULL")
      case True
      then show ?thesis using False by (simp add: entries_from_Cons entries_from_NULL)
    next
      case nn: False
      then have nx: "ent_get_next c m e = e + 4 + ent_size m e"
        using False by (simp add: ent_get_next_step split: if_splits)
      let ?n = "ent_get_next c m e"
      have ih: "successively (\<lambda>a b. b = a + hdr_size + ent_size m a) (entries_from c m ?n)"
        using "1.IH" False by simp
      have hd: "entries_from c m ?n = ?n # entries_from c m (ent_get_next c m ?n)"
        using nn by (rule entries_from_Cons)
      obtain rest where r: "entries_from c m ?n = ?n # rest" using hd by blast
      have "successively (\<lambda>a b. b = a + hdr_size + ent_size m a) (?n # rest)"
        using ih r by simp
      moreover have "?n = e + hdr_size + ent_size m e" using nx by (simp add: hdr_size_def)
      ultimately have s3: "successively (\<lambda>a b. b = a + hdr_size + ent_size m a) (e # ?n # rest)"
        by simp
      have eq: "entries_from c m e = e # ?n # rest"
        using False r by (simp add: entries_from_Cons [of e])
      show ?thesis unfolding eq by (rule s3)
    qed
  qed
qed

lemma tiled_from_last:
  "tiled_from c m e \<Longrightarrow> e \<noteq> NULL \<Longrightarrow>
     last (entries_from c m e) + hdr_size + ent_size m (last (entries_from c m e)) = mem_end c"
proof (induction c m e rule: entries_from.induct)
  case (1 c m e)
  let ?n = "e + 4 + ent_size m e"
  note st = "1.prems"(1) [unfolded tiled_from_step [of c m e]]
  show ?case
  proof (cases "?n = mem_end c")
    case True
    then have "ent_get_next c m e = NULL" using "1.prems"(2) by (simp add: ent_get_next_step)
    then show ?thesis
      using True "1.prems"(2) by (simp add: entries_from_Cons entries_from_NULL hdr_size_def)
  next
    case False
    then have lt: "?n + 4 < mem_end c" and tn: "tiled_from c m ?n" using st by auto
    then have nx: "ent_get_next c m e = ?n" using "1.prems"(2) by (simp add: ent_get_next_step)
    have nn: "?n \<noteq> NULL" by (simp add: NULL_def)
    then have ih: "last (entries_from c m ?n) + hdr_size + ent_size m (last (entries_from c m ?n))
        = mem_end c"
      using "1.IH" [OF "1.prems"(2)] tn nx by simp
    have "entries_from c m ?n \<noteq> []" using nn by (simp add: entries_from_Cons)
    then show ?thesis using "1.prems"(2) nx ih by (simp add: entries_from_Cons [of e])
  qed
qed

lemma dm_inv_tiles:
  assumes "dm_inv c m"
  shows "hd (entries c m) = work_mem c"
    and "successively (\<lambda>a b. b = a + hdr_size + ent_size m a) (entries c m)"
    and "last (entries c m) + hdr_size + ent_size m (last (entries c m)) = mem_end c"
    and "list_all (\<lambda>a. ent_size m a mod 4 = 0) (entries c m)"
proof -
  have ok: "conf_ok c" and til: "tiled_from c m (work_mem c)"
    using assms by (simp_all add: dm_inv_def)
  have nn: "work_mem c \<noteq> NULL" using ok by (rule conf_ok_work_mem)
  show "hd (entries c m) = work_mem c" using nn by (simp add: entries_eq entries_from_Cons)
  show "successively (\<lambda>a b. b = a + hdr_size + ent_size m a) (entries c m)"
    unfolding entries_eq by (rule entries_from_adjacent)
  show "last (entries c m) + hdr_size + ent_size m (last (entries c m)) = mem_end c"
    unfolding entries_eq using til nn by (rule tiled_from_last)
  show "list_all (\<lambda>a. ent_size m a mod 4 = 0) (entries c m)"
    unfolding entries_eq list_all_iff using tiled_from_entries [OF til] by blast
qed

subsection \<open>The tiling is kept, wrapped reallocations apart\<close>

lemma dm_alloc_inv: "dm_inv c m \<Longrightarrow> dm_inv c (fst (dm_alloc c s m))"
proof -
  assume inv: "dm_inv c m"
  show ?thesis
  proof (cases "s = 0")
    case True
    then show ?thesis using inv by (simp add: dm_alloc_def)
  next
    case False
    show ?thesis
    proof (cases rule: find_fits_cases [of m "round_up4 s" "entries c m"])
      case none
      then show ?thesis using inv False by (simp add: dm_alloc_none)
    next
      case (some t)
      with inv False show ?thesis by (intro dm_alloc_at(8))
    qed
  qed
qed

lemma dm_free_inv:
  assumes "dm_inv c m" and "handle_ok c m p"
  shows "dm_inv c (dm_free c p m)"
proof (cases "p = NULL \<or> p = zero_mem c")
  case True
  then show ?thesis using assms(1) by (auto simp: dm_free_def)
next
  case False
  then have al: "is_allocated c m p" using assms(2) by (simp add: handle_ok_def)
  have mem: "p - hdr_size \<in> set (entries_from c m (work_mem c))"
    using is_allocated_entry(1) [OF al] by (simp add: entries_eq)
  have "work_mem c \<noteq> NULL" using assms(1) by (simp add: dm_inv_def conf_ok_work_mem)
  with mem have "tiled_from c (set_used m (p - hdr_size) False) (work_mem c)
      = tiled_from c m (work_mem c)" by (rule set_used_tiled)
  then show ?thesis using False assms(1) by (simp add: dm_free_def dm_inv_def)
qed

lemma store_inv:
  assumes "dm_inv c m" and "owned c m a"
  shows "dm_inv c (m(a := v))"
proof -
  obtain e where e: "e \<in> set (entries c m)" "e + 4 \<le> a" "a < e + 4 + ent_size m e"
    using assms(2) by (auto simp: owned_def list_ex_iff hdr_size_def)
  have mem: "e \<in> set (entries_from c m (work_mem c))" using e(1) by (simp add: entries_eq)
  have "tiled_from c (m(a := v)) (work_mem c) = tiled_from c m (work_mem c)"
    using mem by (rule payload_write_tiled) (use e in auto)
  then show ?thesis using assms(1) by (simp add: dm_inv_def)
qed

lemma round_up4_ge: "unat s \<le> 2 ^ 32 - 4 \<Longrightarrow> unat s \<le> unat (round_up4 s)"
proof -
  assume "unat s \<le> 2 ^ 32 - 4"
  then have "unat (round_up4 s) = (unat s + 3) div 4 * 4" by (rule unat_round_up4_small)
  moreover have "unat s \<le> (unat s + 3) div 4 * 4" by presburger
  ultimately show ?thesis by simp
qed

text \<open>
  A reallocation that finds a block, seen from the arena: \<open>t\<close> is the entry taken and
  \<open>e\<close> the entry of the old block.
\<close>

lemma dm_realloc_at:
  fixes c m s p t
  defines "m1 \<equiv> fst (dm_alloc c s m)" and "e \<equiv> p - hdr_size"
  assumes inv: "dm_inv c m" and al: "is_allocated c m p" and nz: "s \<noteq> 0"
    and range: "unat s \<le> 2 ^ 32 - 4"
    and found: "find (fits m (round_up4 s)) (entries c m) = Some t"
  shows "e \<in> set (entries c m1)" and "t \<in> set (entries c m1)" and "e \<noteq> t"
    and "get_d_size m1 e = get_d_size m e"
    and "\<And>x. e \<le> x \<Longrightarrow> x < e + 4 + ent_size m e \<Longrightarrow> m1 x = m x"
    and "unat (min s w) \<le> ent_size m1 t"
    and "e + 4 + ent_size m e \<le> t \<or> t + 4 + ent_size m1 t \<le> e"
proof -
  note at = dm_alloc_at [OF inv nz found, folded m1_def]
  note ea = is_allocated_entry [OF al, folded e_def]
  obtain xs ys where xy: "entries c m = xs @ t # ys"
    "entries c m1 = xs @ t # (if unat (round_up4 s) + 4 < ent_size m t
                             then [t + 4 + unat (round_up4 s)] else []) @ ys"
    using at(9) by blast
  have sub: "set (entries c m) \<subseteq> set (entries c m1)" using xy by auto
  show e1: "e \<in> set (entries c m1)" using ea(1) sub by blast
  show t1: "t \<in> set (entries c m1)" using at(2) sub by blast
  show ne: "e \<noteq> t" using ea(2) at(3) by blast
  have em: "e \<in> set (entries_from c m (work_mem c))"
    and tm: "t \<in> set (entries_from c m (work_mem c))"
    using ea(1) at(2) by (simp_all add: entries_eq)
  have apart: "e + 4 + ent_size m e \<le> t \<or> t + 4 + ent_size m t \<le> e"
    using entries_from_spaced [OF em tm] entries_from_spaced [OF tm em] ne by fastforce
  show same: "m1 x = m x" if "e \<le> x" and "x < e + 4 + ent_size m e" for x
    using apart that by (intro at(13)) auto
  then show "get_d_size m1 e = get_d_size m e" by (intro get_d_size_same_bytes) simp
  have "unat (min s w) \<le> unat s" by (simp add: min_def word_le_nat_alt)
  also have "\<dots> \<le> unat (round_up4 s)" using range by (rule round_up4_ge)
  also have "\<dots> \<le> ent_size m1 t" using at(11) by simp
  finally show "unat (min s w) \<le> ent_size m1 t" .
  have "ent_size m1 t \<le> ent_size m t" using at(11,4) by auto
  then show "e + 4 + ent_size m e \<le> t \<or> t + 4 + ent_size m1 t \<le> e" using apart by auto
qed

lemma dm_realloc_inv:
  assumes inv: "dm_inv c m" and h: "handle_ok c m p" and range: "unat s \<le> 2 ^ 32 - 4"
  shows "dm_inv c (fst (dm_realloc c p s m))"
proof -
  let ?m1 = "fst (dm_alloc c s m)"
  let ?q = "snd (dm_alloc c s m)"
  let ?old = "dm_get_size c p ?m1"
  have inv1: "dm_inv c ?m1" using inv by (rule dm_alloc_inv)
  show ?thesis
  proof (cases "?q \<noteq> NULL \<and> p \<noteq> NULL \<and> ?old \<noteq> 0")
    case False
    then have "fst (dm_realloc c p s m) = ?m1" by (auto simp: dm_realloc_def Let_def)
    then show ?thesis using inv1 by simp
  next
    case True
    then have pz: "p \<noteq> zero_mem c" by (auto simp: dm_get_size_def)
    then have al: "is_allocated c m p" using h True by (simp add: handle_ok_def)
    let ?n = "unat (min s ?old)"
    let ?m2 = "memcpy ?m1 ?q p ?n"
    have re: "fst (dm_realloc c p s m) = dm_free c p ?m2"
      using True by (simp add: dm_realloc_copy)
    have "dm_inv c ?m2 \<and> handle_ok c ?m2 p"
    proof (cases "s = 0")
      case True
      then have "?m2 = m" by (simp add: dm_alloc_def memcpy_none)
      then show ?thesis using inv h by simp
    next
      case False
      obtain t where found: "find (fits m (round_up4 s)) (entries c m) = Some t"
        using dm_alloc_success [OF False] True by blast
      note at = dm_alloc_at [OF inv False found]
      note ra = dm_realloc_at [OF inv al False range found]
      have t1: "t \<in> set (entries_from c ?m1 (work_mem c))"
        and e1: "p - hdr_size \<in> set (entries_from c ?m1 (work_mem c))"
        using ra(1,2) by (simp_all add: entries_eq)
      have fr: "?m2 x = ?m1 x" if "x < t + 4 \<or> t + 4 + ent_size ?m1 t \<le> x" for x
        using that ra(6) [of ?old] at(1) by (intro memcpy_frame) auto
      have "tiled_from c ?m2 (work_mem c) = tiled_from c ?m1 (work_mem c)"
        using t1 fr by (rule payload_write_tiled)
      then have inv2: "dm_inv c ?m2" using inv1 by (simp add: dm_inv_def)
      have entries2: "entries c ?m2 = entries c ?m1"
        unfolding entries_eq using t1 fr by (rule payload_write_entries)
      have "get_used ?m2 (p - hdr_size) = get_used ?m1 (p - hdr_size)"
        using t1 e1 fr by (rule payload_write_fields)
      moreover have "get_used ?m1 (p - hdr_size) = get_used m (p - hdr_size)"
        using ra(5) by (intro get_used_same_bytes) simp
      ultimately have "is_allocated c ?m2 p"
        using al ra(1) entries2 by (simp add: is_allocated_def)
      then show ?thesis using inv2 by (simp add: handle_ok_def)
    qed
    then show ?thesis unfolding re by (intro dm_free_inv) simp_all
  qed
qed

lemma call_run_inv: "dm_inv c m \<Longrightarrow> call_ok c m x \<Longrightarrow> dm_inv c (call_run c x m)"
  by (cases x) (simp_all add: dm_alloc_inv dm_free_inv dm_realloc_inv store_inv dm_defrag_def)

text \<open>
  From the initialised arena, every sequence of calls within the contract, with no
  division by zero in \<^verbatim>\<open>dm_monitor\<close> and no \<^verbatim>\<open>dm_realloc\<close> for more than \<open>2 ^ 32 - 4\<close>
  bytes, leaves a tiled arena.  Requests to \<^verbatim>\<open>dm_alloc\<close> are not restricted.
\<close>

lemma calls_run_inv: "dm_inv c m \<Longrightarrow> calls_ok c m xs \<Longrightarrow> dm_inv c (calls_run c xs m)"
  by (induction xs arbitrary: m) (simp_all add: call_run_inv)

lemma tiling_kept:
  assumes "conf_ok c" and "calls_ok c (dm_init c m) xs"
  shows "dm_inv c (calls_run c xs (dm_init c m))"
  using assms by (intro calls_run_inv dm_init_inv)

subsection \<open>The content is kept, wrapped reallocations apart\<close>

text \<open>
  For an outstanding allocation \<open>p\<close> of size \<open>old_size > 0\<close> in a well-formed arena and
  a request of at most \<open>2 ^ 32 - 4\<close> bytes: when \<^verbatim>\<open>dm_realloc\<close> returns an address \<open>q\<close>
  that is neither \<^verbatim>\<open>NULL\<close> nor the sentinel, the first \<open>min(old_size, new_size)\<close> bytes
  at \<open>q\<close> are those that stood at \<open>p\<close> before the call, and the entry of \<open>p\<close> is free.
\<close>

lemma realloc_keeps_content:
  fixes c m p s
  defines "q \<equiv> snd (dm_realloc c p s m)" and "m' \<equiv> fst (dm_realloc c p s m)"
  assumes inv: "dm_inv c m" and al: "is_allocated c m p"
    and old: "dm_get_size c p m \<noteq> 0" and range: "unat s \<le> 2 ^ 32 - 4"
    and q: "q \<noteq> NULL" "q \<noteq> zero_mem c"
  shows "\<forall>i < min (unat (dm_get_size c p m)) (unat s). m' (q + i) = m (p + i)"
    and "\<not> get_used m' (p - hdr_size)"
proof -
  let ?m1 = "fst (dm_alloc c s m)"
  let ?e = "p - hdr_size"
  have qa: "q = snd (dm_alloc c s m)" by (simp add: q_def dm_realloc_def Let_def split: if_splits)
  have nz: "s \<noteq> 0" using q(2) qa by (auto simp: dm_alloc_def)
  obtain t where found: "find (fits m (round_up4 s)) (entries c m) = Some t"
    using dm_alloc_success [OF nz] q(1) qa by metis
  note at = dm_alloc_at [OF inv nz found]
  note ra = dm_realloc_at [OF inv al nz range found]
  note ea = is_allocated_entry [OF al]
  have pz: "p \<noteq> zero_mem c" using old by (auto simp: dm_get_size_def)
  have qt: "q = t + 4" using qa at(1) by simp
  have pe: "p = ?e + 4" by (rule ea(3))
  have size1: "dm_get_size c p ?m1 = dm_get_size c p m"
    using pz ra(4) by (simp add: dm_get_size_def)
  let ?n = "unat (min s (dm_get_size c p m))"
  let ?m2 = "memcpy ?m1 q p ?n"
  have re: "m' = set_used ?m2 ?e False"
    using dm_realloc_copy [of c s m p] q(1) qa ea(4) old size1 pz
    by (simp add: m'_def dm_free_def)
  have n: "?n = min (unat (dm_get_size c p m)) (unat s)"
    by (simp add: min_def word_le_nat_alt)
  have on: "unat (dm_get_size c p m) = ent_size m ?e"
    using pz by (simp add: dm_get_size_def ent_size_def)
  have nt: "?n \<le> ent_size ?m1 t" by (rule ra(6))
  show "\<not> get_used m' ?e" by (simp add: re get_used_set_used)
  show "\<forall>i < min (unat (dm_get_size c p m)) (unat s). m' (q + i) = m (p + i)"
  proof (intro allI impI)
    fix i assume "i < min (unat (dm_get_size c p m)) (unat s)"
    then have i: "i < ?n" and ie: "i < ent_size m ?e" using n on by simp_all
    have "q + i < ?e \<or> ?e + 4 \<le> q + i" using ra(7) qt i nt by auto
    then have "m' (q + i) = ?m2 (q + i)" unfolding re by (rule set_used_frame)
    also have "\<dots> = ?m1 (p + i)" using i by (rule memcpy_copied)
    also have "\<dots> = m (p + i)" using pe ie by (intro ra(5)) simp_all
    finally show "m' (q + i) = m (p + i)" .
  qed
qed

section \<open>The monitor\<close>

lemma dm_monitor_loop_fold:
  "dm_monitor_loop c m e mon = fold (mon_entry m) (entries_from c m e) mon"
proof (induction c m e mon rule: dm_monitor_loop.induct)
  case (1 c m e mon)
  show ?case
  proof (cases "e = NULL")
    case True
    then show ?thesis by (subst dm_monitor_loop.simps) (simp add: entries_from_NULL)
  next
    case False
    then show ?thesis using "1.IH"
      by (subst dm_monitor_loop.simps) (simp add: entries_from_Cons)
  qed
qed

lemma dm_monitor_fold:
  "dm_monitor c m =
     (let mon1 = fold (mon_entry m) (entries c m) mon_zero
      in if size_free mon1 = 0 then None
         else Some (mon1\<lparr>pct_frag := 100 - size_free_big mon1 * 100 div size_free mon1\<rparr>))"
  by (simp add: dm_monitor_def Let_def dm_monitor_loop_fold entries_def)

subsection \<open>Arenas below 40 MiB\<close>

text \<open>In a tiled arena the blocks of the chain add up to the arena.\<close>

lemma tiled_total:
  "tiled_from c m e \<Longrightarrow> e \<noteq> NULL \<Longrightarrow>
     sum_list (map (\<lambda>a. 4 + ent_size m a) (entries_from c m e)) + e = mem_end c"
proof (induction c m e rule: entries_from.induct)
  case (1 c m e)
  let ?n = "e + 4 + ent_size m e"
  note st = "1.prems"(1) [unfolded tiled_from_step [of c m e]]
  show ?case
  proof (cases "?n = mem_end c")
    case True
    then have "ent_get_next c m e = NULL" using "1.prems"(2) by (simp add: ent_get_next_step)
    then show ?thesis using True "1.prems"(2) by (simp add: entries_from_Cons entries_from_NULL)
  next
    case False
    then have lt: "?n + 4 < mem_end c" and tn: "tiled_from c m ?n" using st by auto
    then have nx: "ent_get_next c m e = ?n" using "1.prems"(2) by (simp add: ent_get_next_step)
    have "?n \<noteq> NULL" by (simp add: NULL_def)
    then have "sum_list (map (\<lambda>a. 4 + ent_size m a) (entries_from c m ?n)) + ?n = mem_end c"
      using "1.IH" [OF "1.prems"(2)] tn nx by simp
    then show ?thesis using "1.prems"(2) nx by (simp add: entries_from_Cons)
  qed
qed

lemma dm_inv_total:
  assumes "dm_inv c m"
  shows "sum_list (map (\<lambda>a. 4 + ent_size m a) (entries c m)) = DM_MEM_SIZE c"
proof -
  have "conf_ok c" and "tiled_from c m (work_mem c)" using assms by (simp_all add: dm_inv_def)
  then have "sum_list (map (\<lambda>a. 4 + ent_size m a) (entries c m)) + work_mem c = mem_end c"
    unfolding entries_eq by (intro tiled_total conf_ok_work_mem)
  then show ?thesis by (simp add: mem_end_def)
qed

text \<open>The statistics a walk over the entries \<open>es\<close> should give, as numbers.\<close>

lemma mon_entry_fold:
  "fold (mon_entry m) es mon =
     mon\<lparr>cnt_free := cnt_free mon + of_nat (length (filter (\<lambda>e. \<not> get_used m e) es)),
         cnt_used := cnt_used mon + of_nat (length (filter (get_used m) es)),
         size_free := size_free mon +
            of_nat (sum_list (map (ent_size m) (filter (\<lambda>e. \<not> get_used m e) es))),
         size_free_big :=
            fold (\<lambda>e b. max b (get_d_size m e)) (filter (\<lambda>e. \<not> get_used m e) es)
              (size_free_big mon)\<rparr>"
proof (induction es arbitrary: mon)
  case Nil
  then show ?case by simp
next
  case (Cons e es)
  show ?case
  proof (cases "get_used m e")
    case True
    then have step: "mon_entry m e mon = mon\<lparr>cnt_used := cnt_used mon + 1\<rparr>"
      by (simp add: mon_entry_def)
    show ?thesis using True by (simp add: Cons.IH step algebra_simps)
  next
    case False
    have w: "of_nat (ent_size m e) = get_d_size m e" by (simp add: ent_size_def)
    have step: "mon_entry m e mon =
        mon\<lparr>cnt_free := cnt_free mon + 1, size_free := size_free mon + get_d_size m e,
            size_free_big := max (size_free_big mon) (get_d_size m e)\<rparr>"
      using False by (simp add: mon_entry_def Let_def max_def not_less)
    show ?thesis using False by (simp add: Cons.IH step w algebra_simps)
  qed
qed

lemma unat_fold_max:
  "unat (fold (\<lambda>e b. max b (get_d_size m e)) es (b0 :: 32 word)) =
     fold (\<lambda>e b. max b (ent_size m e)) es (unat b0)"
proof (induction es arbitrary: b0)
  case Nil
  then show ?case by simp
next
  case (Cons e es)
  have "unat (max b0 (get_d_size m e)) = max (unat b0) (ent_size m e)"
    by (simp add: max_def word_le_nat_alt ent_size_def)
  then show ?case using Cons.IH [of "max b0 (get_d_size m e)"] by simp
qed

lemma fold_max_le_sum:
  "b \<le> s \<Longrightarrow> fold (\<lambda>e b. max b (f e)) es b \<le> s + sum_list (map f es)" for b :: nat
proof (induction es arbitrary: b s)
  case Nil
  then show ?case by simp
next
  case (Cons e es)
  have "max b (f e) \<le> s + f e" using Cons.prems by simp
  then have "fold (\<lambda>e b. max b (f e)) es (max b (f e)) \<le> (s + f e) + sum_list (map f es)"
    by (rule Cons.IH)
  then show ?case by simp
qed

lemma sum_filter_le:
  "sum_list (map f (filter P es)) \<le> sum_list (map (\<lambda>a. 4 + f a) es)" for f :: "nat \<Rightarrow> nat"
  by (induction es) auto

lemma length_le_sum: "4 * length es \<le> sum_list (map (\<lambda>a. 4 + f a) es)" for f :: "nat \<Rightarrow> nat"
  by (induction es) auto

lemma unat_of_nat32: "n < 2 ^ 32 \<Longrightarrow> unat (of_nat n :: 32 word) = n"
  by (simp add: unat_of_nat take_bit_nat_eq_self)

text \<open>
  In a well-formed arena of less than \<open>2 ^ 32 / 100\<close> bytes with some free byte,
  \<^verbatim>\<open>dm_monitor\<close> reports the number of free and of used entries of the chain, the sum
  and the maximum of the sizes of the free ones, and
  \<open>100 - 100 * largest div total\<close>.
\<close>

lemma monitor_exact:
  fixes c m
  defines "free_es \<equiv> filter (\<lambda>e. \<not> get_used m e) (entries c m)"
  defines "free_sum \<equiv> sum_list (map (ent_size m) free_es)"
    and "free_max \<equiv> fold (\<lambda>e b. max b (ent_size m e)) free_es 0"
  assumes inv: "dm_inv c m" and small: "100 * DM_MEM_SIZE c < 2 ^ 32" and some: "0 < free_sum"
  shows "\<exists>mon. dm_monitor c m = Some mon \<and>
           unat (cnt_free mon) = length free_es \<and>
           unat (cnt_used mon) = length (filter (get_used m) (entries c m)) \<and>
           unat (size_free mon) = free_sum \<and> unat (size_free_big mon) = free_max \<and>
           unat (pct_frag mon) = 100 - 100 * free_max div free_sum"
proof -
  let ?es = "entries c m"
  let ?mon1 = "fold (mon_entry m) ?es mon_zero"
  have all: "sum_list (map (\<lambda>a. 4 + ent_size m a) ?es) = DM_MEM_SIZE c"
    using inv by (rule dm_inv_total)
  have len: "4 * length ?es \<le> DM_MEM_SIZE c"
    using length_le_sum [of ?es "ent_size m"] all by simp
  have "length free_es \<le> length ?es" by (simp add: free_es_def)
  then have nfree: "length free_es \<le> DM_MEM_SIZE c" using len by linarith
  have "length (filter (get_used m) ?es) \<le> length ?es" by simp
  then have nused: "length (filter (get_used m) ?es) \<le> DM_MEM_SIZE c" using len by linarith
  have tot: "free_sum \<le> DM_MEM_SIZE c"
    using sum_filter_le [of "ent_size m" "\<lambda>e. \<not> get_used m e" ?es] all
    by (simp add: free_sum_def free_es_def)
  have big: "free_max \<le> free_sum"
    using fold_max_le_sum [of 0 0 "ent_size m" free_es] by (simp add: free_max_def free_sum_def)
  have c1: "unat (cnt_free ?mon1) = length free_es"
    using nfree small by (simp add: mon_entry_fold mon_zero_def free_es_def unat_of_nat32)
  have c2: "unat (cnt_used ?mon1) = length (filter (get_used m) ?es)"
    using nused small by (simp add: mon_entry_fold mon_zero_def unat_of_nat32)
  have c3: "unat (size_free ?mon1) = free_sum"
    using tot small by (simp add: mon_entry_fold mon_zero_def free_es_def free_sum_def unat_of_nat32)
  have c4: "unat (size_free_big ?mon1) = free_max"
    by (simp add: mon_entry_fold mon_zero_def unat_fold_max free_es_def free_max_def)
  have nz: "size_free ?mon1 \<noteq> 0" using c3 some by auto
  let ?q = "size_free_big ?mon1 * 100 div size_free ?mon1"
  have "free_max * 100 < 2 ^ 32" using big tot small by simp
  then have "unat (size_free_big ?mon1 * 100) = free_max * 100"
    by (simp add: unat_word_ariths c4)
  then have q: "unat ?q = free_max * 100 div free_sum" by (simp add: unat_div c3)
  have "free_max * 100 div free_sum \<le> 100" using big some
    by (metis div_le_mono div_mult_self_is_m mult.commute mult_le_mono1)
  then have "?q \<le> 100" using q by (simp add: word_le_nat_alt)
  then have "unat (100 - ?q) = 100 - unat ?q" using unat_sub [of ?q 100] by simp
  then have c5: "unat (100 - ?q) = 100 - 100 * free_max div free_sum"
    using q by (simp add: mult.commute)
  have "dm_monitor c m = Some (?mon1\<lparr>pct_frag := 100 - ?q\<rparr>)"
    using nz by (simp add: dm_monitor_fold Let_def)
  then show ?thesis using c1 c2 c3 c4 c5 by simp
qed

section \<open>The small arena, evaluated\<close>

lemma c32_ok: "conf_ok c32"
  by (simp add: conf_ok_def c32_def hdr_size_def mem_end_def)

lemma c32_fields:
  "work_mem c32 = 100" "mem_end c32 = 132" "zero_mem c32 = 200" "DM_MEM_SIZE c32 = 32"
  "DM_AUTO_ZERO c32 = False"
  by (simp_all add: c32_def mem_end_def)

lemma m32_inv: "dm_inv c32 m32"
  unfolding m32_def using c32_ok by (rule dm_init_inv)

lemma m32_first: "\<not> get_used m32 100" "ent_size m32 100 = 28" "entries c32 m32 = [100]"
  using dm_init_used [of c32 "\<lambda>x. 0"] dm_init_size [OF c32_ok, of "\<lambda>x. 0"]
    dm_init_entries [OF c32_ok, of "\<lambda>x. 0"]
  by (simp_all add: m32_def c32_fields)

lemma round_up4_examples:
  "round_up4 5 = 8" "round_up4 8 = 8" "round_up4 24 = 24" "round_up4 28 = 28" "round_up4 4 = 4"
  "round_up4 0xFFFFFFFD = 0" "round_up4 0 = 0"
  by (simp_all add: round_up4_def)

text \<open>\<^verbatim>\<open>dm_alloc(5)\<close> in the fresh arena splits the first entry.\<close>

lemma m32_alloc5:
  "dm_alloc c32 5 m32 = (fst (ent_alloc m32 100 8), 104)"
  using dm_alloc_some [of 5 m32 c32 100]
  by (simp add: m32_first fits_nat round_up4_examples c32_fields)

lemma m32_alloc5_chain:
  "entries c32 (fst (ent_alloc m32 100 8)) = [100, 112]"
  "get_used (fst (ent_alloc m32 100 8)) 100"
  "ent_size (fst (ent_alloc m32 100 8)) 100 = 8"
  "\<not> get_used (fst (ent_alloc m32 100 8)) 112"
  "ent_size (fst (ent_alloc m32 100 8)) 112 = 16"
proof -
  have f: "fits m32 8 100" by (simp add: fits_nat m32_first)
  have big: "unat (8 :: 32 word) + 4 < ent_size m32 100" by (simp add: m32_first)
  have nn: "(100 :: nat) \<noteq> NULL" by (simp add: NULL_def)
  then have "ent_get_next c32 m32 100 = NULL"
    by (simp add: ent_get_next_step m32_first c32_fields)
  then show "entries c32 (fst (ent_alloc m32 100 8)) = [100, 112]"
    using ent_alloc_split_entries [OF f big _ nn, of c32]
    by (simp add: entries_def ent_get_next_first c32_fields m32_first entries_from_NULL)
  show "get_used (fst (ent_alloc m32 100 8)) 100" using f by (rule ent_alloc_used)
  show "ent_size (fst (ent_alloc m32 100 8)) 100 = 8"
    using ent_alloc_size [OF f] by (simp add: m32_first)
  show "\<not> get_used (fst (ent_alloc m32 100 8)) 112"
    using ent_alloc_rest_free [OF f] by (simp add: m32_first)
  show "ent_size (fst (ent_alloc m32 100 8)) 112 = 16"
    using ent_alloc_rest_size [OF f big] by (simp add: m32_first)
qed

lemma m32_five_eq: "m32_five = fst (ent_alloc m32 100 8)"
  by (simp add: m32_five_def m32_alloc5)

lemma m32_five_chain:
  "entries c32 m32_five = [100, 112]" "get_used m32_five 100" "ent_size m32_five 100 = 8"
  "\<not> get_used m32_five 112" "ent_size m32_five 112 = 16"
  unfolding m32_five_eq by (rule m32_alloc5_chain)+

lemma m32_five_allocated: "is_allocated c32 m32_five 104"
  by (simp add: is_allocated_def hdr_size_def m32_five_chain)

text \<open>\<^verbatim>\<open>dm_alloc(28)\<close> in the fresh arena takes the first entry whole.\<close>

lemma m32_alloc28: "dm_alloc c32 28 m32 = (fst (ent_alloc m32 100 28), 104)"
  using dm_alloc_some [of 28 m32 c32 100]
  by (simp add: m32_first fits_nat round_up4_examples c32_fields)

lemma m32_full_eq: "m32_full = fst (ent_alloc m32 100 28)"
  by (simp add: m32_full_def m32_alloc28)

lemma m32_full_chain:
  "entries c32 m32_full = [100]" "get_used m32_full 100" "ent_size m32_full 100 = 28"
proof -
  have f: "fits m32 28 100" by (simp add: fits_nat m32_first)
  have k: "ent_size m32 100 = unat (28 :: 32 word) \<or> ent_size m32 100 = unat (28 :: 32 word) + 4"
    by (simp add: m32_first)
  show "entries c32 m32_full = [100]"
    using ent_alloc_keep_entries [OF f k, of c32]
    by (simp add: m32_full_eq entries_def ent_get_next_first c32_fields)
      (simp add: m32_first(3) [unfolded entries_def ent_get_next_first c32_fields])
  show "get_used m32_full 100" unfolding m32_full_eq using f by (rule ent_alloc_used)
  show "ent_size m32_full 100 = 28"
    unfolding m32_full_eq using ent_alloc_size [OF f] by (simp add: m32_first)
qed

text \<open>In the arena used up, \<^verbatim>\<open>dm_alloc(4)\<close> and \<^verbatim>\<open>dm_realloc(104, 4)\<close> fail and change nothing.\<close>

lemma m32_full_exhausted:
  "dm_alloc c32 4 m32_full = (m32_full, NULL) \<and> dm_realloc c32 104 4 m32_full = (m32_full, NULL)"
  by (rule alloc_exhausted) (simp_all add: m32_full_chain)

subsection \<open>A request that wraps the rounding\<close>

lemma m32_five_inv: "dm_inv c32 m32_five"
proof -
  have "find (fits m32 (round_up4 5)) (entries c32 m32) = Some 100"
    by (simp add: m32_first fits_nat round_up4_examples)
  then show ?thesis unfolding m32_five_def by (intro dm_alloc_at(8) m32_inv) simp_all
qed

lemma m32_ff_chain:
  "dm_inv c32 m32_ff" "entries c32 m32_ff = [100, 112]"
  "get_used m32_ff 100" "ent_size m32_ff 100 = 8"
  "\<not> get_used m32_ff 112" "ent_size m32_ff 112 = 16"
  "is_allocated c32 m32_ff 104"
proof -
  have t: "100 \<in> set (entries c32 m32_five)" by (simp add: m32_five_chain)
  have a: "100 + 4 \<le> (104 :: nat)" by simp
  have b: "104 + 8 \<le> 100 + 4 + ent_size m32_five 100" by (simp add: m32_five_chain)
  note ms = memset_payload [OF t a b, where v = "0xFF", folded m32_ff_def]
  show "dm_inv c32 m32_ff" using ms(2) m32_five_inv by (simp add: m32_five_chain)
  show e: "entries c32 m32_ff = [100, 112]" using ms(1) by (simp add: m32_five_chain)
  show u: "get_used m32_ff 100" and "ent_size m32_ff 100 = 8"
    using ms(3) [of 100] by (simp_all add: m32_five_chain)
  show "\<not> get_used m32_ff 112" and "ent_size m32_ff 112 = 16"
    using ms(3) [of 112] by (simp_all add: m32_five_chain)
  show "is_allocated c32 m32_ff 104" using e u by (simp add: is_allocated_def hdr_size_def)
qed

lemma m32_ff_bytes: "104 \<le> x \<Longrightarrow> x < 112 \<Longrightarrow> m32_ff x = 0xFF"
  by (simp add: m32_ff_def memset_def)

text \<open>
  \<^verbatim>\<open>dm_realloc(104, 0xFFFFFFFD)\<close> in that arena: the rounded size is 0, the free entry at
  112 is cut to size 0, and the 8 bytes of the old payload are copied to 116, over the
  header that was just written there.
\<close>

lemma m32_ff_alloc:
  fixes ma
  defines "ma \<equiv> fst (dm_alloc c32 0xFFFFFFFD m32_ff)"
  shows "snd (dm_alloc c32 0xFFFFFFFD m32_ff) = 116"
    and "ent_size ma 112 = 0" and "ent_size ma 100 = 8"
    and "\<And>x. x < 112 \<Longrightarrow> ma x = m32_ff x"
proof -
  have found: "find (fits m32_ff (round_up4 0xFFFFFFFD)) (entries c32 m32_ff) = Some 112"
    by (simp add: m32_ff_chain fits_nat round_up4_examples)
  have nz: "(0xFFFFFFFD :: 32 word) \<noteq> 0" by simp
  note at = dm_alloc_at [OF m32_ff_chain(1) nz found, folded ma_def]
  show "snd (dm_alloc c32 0xFFFFFFFD m32_ff) = 116" using at(1) by simp
  show "ent_size ma 112 = 0" using at(11) by (simp add: round_up4_examples m32_ff_chain)
  show fr: "ma x = m32_ff x" if "x < 112" for x using at(13) [of x] that by simp
  have "ent_size ma 100 = ent_size m32_ff 100" using fr by (intro ent_size_same_bytes) simp
  then show "ent_size ma 100 = 8" by (simp add: m32_ff_chain)
qed

lemma m32_bad_eq:
  "dm_realloc c32 104 0xFFFFFFFD m32_ff =
     (set_used (memcpy (fst (dm_alloc c32 0xFFFFFFFD m32_ff)) 116 104 8) 100 False, 116)"
proof -
  let ?ma = "fst (dm_alloc c32 0xFFFFFFFD m32_ff)"
  have sz: "unat (get_d_size ?ma 100) = 8" using m32_ff_alloc(3) by (simp add: ent_size_def)
  then have gs: "dm_get_size c32 104 ?ma = get_d_size ?ma 100" and nz: "get_d_size ?ma 100 \<noteq> 0"
    by (auto simp: dm_get_size_def c32_fields hdr_size_def)
  have "get_d_size ?ma 100 \<le> 0xFFFFFFFD" using sz by (simp add: word_le_nat_alt)
  then have mn: "unat (min 0xFFFFFFFD (get_d_size ?ma 100)) = 8" using sz by (simp add: min_def)
  have "dm_realloc c32 104 0xFFFFFFFD m32_ff =
      (dm_free c32 104 (memcpy ?ma 116 104 8), 116)"
    using dm_realloc_copy [of c32 "0xFFFFFFFD" m32_ff 104] nz
    by (simp add: m32_ff_alloc(1) gs mn NULL_def)
  then show ?thesis by (simp add: dm_free_def c32_fields NULL_def hdr_size_def)
qed

lemma m32_bad_chain:
  "ent_size m32_bad 100 = 8" "ent_size m32_bad 112 = 0" "ent_size m32_bad 116 = 2147483647"
  "entries c32 m32_bad = [100, 112, 116]"
proof -
  let ?ma = "fst (dm_alloc c32 0xFFFFFFFD m32_ff)"
  let ?mc = "memcpy ?ma 116 104 8"
  have bad: "m32_bad = set_used ?mc 100 False" by (simp add: m32_bad_def m32_bad_eq)
  have low: "?mc x = ?ma x" if "x < 116" for x using that by (simp add: memcpy_frame)
  have "ent_size ?mc 100 = ent_size ?ma 100" using low by (intro ent_size_same_bytes) simp
  then show s100: "ent_size m32_bad 100 = 8"
    by (simp add: bad ent_size_def get_d_size_set_used m32_ff_alloc(3) [unfolded ent_size_def])
  have "ent_size ?mc 112 = ent_size ?ma 112" using low by (intro ent_size_same_bytes) simp
  then show s112: "ent_size m32_bad 112 = 0"
    by (simp add: bad ent_size_def get_d_size_set_used_other m32_ff_alloc(2) [unfolded ent_size_def])
  have ff: "m32_bad x = 0xFF" if "116 \<le> x" and "x < 124" for x
  proof -
    have "m32_bad x = ?mc x" using that by (simp add: bad set_used_frame)
    also have "\<dots> = ?ma (104 + (x - 116))" using that by (simp add: memcpy_def)
    also have "\<dots> = m32_ff (104 + (x - 116))" using that by (intro m32_ff_alloc(4)) simp
    also have "\<dots> = 0xFF" using that by (intro m32_ff_bytes) simp_all
    finally show ?thesis .
  qed
  have "load32 m32_bad 116 = 0xFFFFFFFF" by (intro load32_ff ff) simp_all
  then show s116: "ent_size m32_bad 116 = 2147483647"
    by (simp add: ent_size_def get_d_size_def)
  have nn: "(100 :: nat) \<noteq> NULL" "(112 :: nat) \<noteq> NULL" "(116 :: nat) \<noteq> NULL"
    by (simp_all add: NULL_def)
  have "ent_get_next c32 m32_bad 100 = 112" "ent_get_next c32 m32_bad 112 = 116"
    "ent_get_next c32 m32_bad 116 = NULL"
    using nn by (simp_all add: ent_get_next_step s100 s112 s116 c32_fields)
  then show "entries c32 m32_bad = [100, 112, 116]"
    using nn by (simp add: entries_eq c32_fields entries_from_Cons entries_from_NULL)
qed

subsection \<open>A wrapped request next to the block it copies from\<close>

lemma m32_a_chain:
  "dm_inv c32 m32_a" "entries c32 m32_a = [100, 108]"
  "get_used m32_a 100" "ent_size m32_a 100 = 4"
  "\<not> get_used m32_a 108" "ent_size m32_a 108 = 20"
proof -
  have found: "find (fits m32 (round_up4 4)) (entries c32 m32) = Some 100"
    by (simp add: m32_first fits_nat round_up4_examples)
  have nz: "(4 :: 32 word) \<noteq> 0" by simp
  note at = dm_alloc_at [OF m32_inv nz found, folded m32_a_def]
  show "dm_inv c32 m32_a" by (rule at(8))
  show "get_used m32_a 100" by (rule at(10))
  show a: "ent_size m32_a 100 = 4" using at(11) by (simp add: round_up4_examples m32_first)
  show "\<not> get_used m32_a 108" and b: "ent_size m32_a 108 = 20"
    using at(12) by (simp_all add: round_up4_examples m32_first)
  show "entries c32 m32_a = [100, 108]"
    by (simp add: entries_eq c32_fields entries_from_unfold NULL_def a b)
qed

lemma m32_ab_chain:
  "dm_inv c32 m32_ab" "entries c32 m32_ab = [100, 108, 120]"
  "get_used m32_ab 100" "ent_size m32_ab 100 = 4"
  "get_used m32_ab 108" "ent_size m32_ab 108 = 8"
  "\<not> get_used m32_ab 120" "ent_size m32_ab 120 = 8"
proof -
  have found: "find (fits m32_a (round_up4 8)) (entries c32 m32_a) = Some 108"
    by (simp add: m32_a_chain fits_nat round_up4_examples)
  have nz: "(8 :: 32 word) \<noteq> 0" by simp
  note at = dm_alloc_at [OF m32_a_chain(1) nz found, folded m32_ab_def]
  show "dm_inv c32 m32_ab" by (rule at(8))
  have low: "m32_ab x = m32_a x" if "x < 108" for x using at(13) [of x] that by simp
  have "get_used m32_ab 100 = get_used m32_a 100" using low by (intro get_used_same_bytes) simp
  then show "get_used m32_ab 100" by (simp add: m32_a_chain)
  have "ent_size m32_ab 100 = ent_size m32_a 100" using low by (intro ent_size_same_bytes) simp
  then show a: "ent_size m32_ab 100 = 4" by (simp add: m32_a_chain)
  show "get_used m32_ab 108" by (rule at(10))
  show b: "ent_size m32_ab 108 = 8" using at(11) by (simp add: round_up4_examples m32_a_chain)
  show "\<not> get_used m32_ab 120" and c: "ent_size m32_ab 120 = 8"
    using at(12) by (simp_all add: round_up4_examples m32_a_chain)
  show "entries c32 m32_ab = [100, 108, 120]"
    by (simp add: entries_eq c32_fields entries_from_unfold NULL_def a b c)
qed

lemma m32_b_chain:
  "dm_inv c32 m32_b" "entries c32 m32_b = [100, 108, 120]"
  "\<not> get_used m32_b 100" "ent_size m32_b 100 = 4"
  "get_used m32_b 108" "ent_size m32_b 108 = 8"
proof -
  have eq: "m32_b = set_used m32_ab 100 False"
    by (simp add: m32_b_def dm_free_def c32_fields NULL_def hdr_size_def)
  have mem: "100 \<in> set (entries_from c32 m32_ab (work_mem c32))"
    using m32_ab_chain(2) by (simp add: entries_eq)
  have "tiled_from c32 m32_b (work_mem c32) = tiled_from c32 m32_ab (work_mem c32)"
    unfolding eq using mem by (rule set_used_tiled) (simp add: c32_fields NULL_def)
  then show "dm_inv c32 m32_b" using m32_ab_chain(1) by (simp add: dm_inv_def)
  show "entries c32 m32_b = [100, 108, 120]"
    unfolding eq entries_eq using set_used_entries [OF mem] m32_ab_chain(2)
    by (simp add: entries_eq)
  show "\<not> get_used m32_b 100" by (simp add: eq get_used_set_used)
  show "ent_size m32_b 100 = 4"
    using m32_ab_chain(4) by (simp add: eq ent_size_def get_d_size_set_used)
  show "get_used m32_b 108" using m32_ab_chain(5) by (simp add: eq get_used_set_used_other)
  show "ent_size m32_b 108 = 8"
    using m32_ab_chain(6) by (simp add: eq ent_size_def get_d_size_set_used_other)
qed

lemma m32_bff_chain:
  "dm_inv c32 m32_bff" "entries c32 m32_bff = [100, 108, 120]"
  "\<not> get_used m32_bff 100" "ent_size m32_bff 100 = 4"
  "get_used m32_bff 108" "ent_size m32_bff 108 = 8"
  "is_allocated c32 m32_bff 112"
proof -
  have t: "108 \<in> set (entries c32 m32_b)" by (simp add: m32_b_chain)
  have a: "108 + 4 \<le> (112 :: nat)" by simp
  have b: "112 + 8 \<le> 108 + 4 + ent_size m32_b 108" by (simp add: m32_b_chain)
  note ms = memset_payload [OF t a b, where v = "0xFF", folded m32_bff_def]
  show "dm_inv c32 m32_bff" using ms(2) m32_b_chain(1) by simp
  show e: "entries c32 m32_bff = [100, 108, 120]" using ms(1) by (simp add: m32_b_chain)
  show "\<not> get_used m32_bff 100" and "ent_size m32_bff 100 = 4"
    using ms(3) [of 100] by (simp_all add: m32_b_chain)
  show u: "get_used m32_bff 108" and "ent_size m32_bff 108 = 8"
    using ms(3) [of 108] by (simp_all add: m32_b_chain)
  show "is_allocated c32 m32_bff 112" using e u by (simp add: is_allocated_def hdr_size_def)
qed

lemma m32_bff_bytes: "112 \<le> x \<Longrightarrow> x < 120 \<Longrightarrow> m32_bff x = 0xFF"
  by (simp add: m32_bff_def memset_def)

lemma m32_bff_alloc:
  fixes ma
  defines "ma \<equiv> fst (dm_alloc c32 0xFFFFFFFD m32_bff)"
  shows "snd (dm_alloc c32 0xFFFFFFFD m32_bff) = 104"
    and "\<And>x. 108 \<le> x \<Longrightarrow> ma x = m32_bff x"
proof -
  have found: "find (fits m32_bff (round_up4 0xFFFFFFFD)) (entries c32 m32_bff) = Some 100"
    by (simp add: m32_bff_chain fits_nat round_up4_examples)
  have nz: "(0xFFFFFFFD :: 32 word) \<noteq> 0" by simp
  note at = dm_alloc_at [OF m32_bff_chain(1) nz found, folded ma_def]
  show "snd (dm_alloc c32 0xFFFFFFFD m32_bff) = 104" using at(1) by simp
  show "ma x = m32_bff x" if "108 \<le> x" for x
    using at(13) [of x] that by (simp add: m32_bff_chain)
qed

lemma m32_bff_realloc:
  "dm_realloc c32 112 0xFFFFFFFD m32_bff =
     (set_used (memcpy (fst (dm_alloc c32 0xFFFFFFFD m32_bff)) 104 112 8) 108 False, 104)"
proof -
  let ?ma = "fst (dm_alloc c32 0xFFFFFFFD m32_bff)"
  have "ent_size ?ma 108 = ent_size m32_bff 108"
    using m32_bff_alloc(2) by (intro ent_size_same_bytes) simp
  then have "ent_size ?ma 108 = 8" by (simp add: m32_bff_chain)
  then have sz: "unat (get_d_size ?ma 108) = 8" by (simp add: ent_size_def)
  then have gs: "dm_get_size c32 112 ?ma = get_d_size ?ma 108" and nz: "get_d_size ?ma 108 \<noteq> 0"
    by (auto simp: dm_get_size_def c32_fields hdr_size_def)
  have "get_d_size ?ma 108 \<le> 0xFFFFFFFD" using sz by (simp add: word_le_nat_alt)
  then have mn: "unat (min 0xFFFFFFFD (get_d_size ?ma 108)) = 8" using sz by (simp add: min_def)
  have "dm_realloc c32 112 0xFFFFFFFD m32_bff =
      (dm_free c32 112 (memcpy ?ma 104 112 8), 104)"
    using dm_realloc_copy [of c32 "0xFFFFFFFD" m32_bff 112] nz
    by (simp add: m32_bff_alloc(1) gs mn NULL_def)
  then show ?thesis by (simp add: dm_free_def c32_fields NULL_def hdr_size_def)
qed

section \<open>The claims of the specification\<close>

text \<open>
  C1 fails on the source for the requests \<open>s > 2 ^ 32 - 4\<close>: the rounding
  \<^verbatim>\<open>(size & ~0x3) + 4\<close> wraps to 0.  In the fresh arena of 32 bytes the only entry has
  28 bytes, the next multiple of 4 above \<^verbatim>\<open>0xFFFFFFFD\<close> is \<open>2 ^ 32\<close>, and
  \<^verbatim>\<open>dm_alloc(0xFFFFFFFD)\<close> does not return \<^verbatim>\<open>NULL\<close>: it returns the payload address 104
  of that entry, cut to a size of 0 bytes.  For the requests \<open>0 < s \<le> 2 ^ 32 - 4\<close> the
  search is the first fit of the claim, in every store (lemma \<open>alloc_first_fit\<close>).
\<close>

theorem alloc_wrapped_request:
  "dm_inv c32 m32 \<and> entries c32 m32 = [100] \<and> ent_size m32 100 = 28 \<and>
   (unat (0xFFFFFFFD :: 32 word) + 3) div 4 * 4 = 4294967296 \<and>
   round_up4 0xFFFFFFFD = 0 \<and>
   snd (dm_alloc c32 0xFFFFFFFD m32) = 104 \<and> snd (dm_alloc c32 0xFFFFFFFD m32) \<noteq> NULL \<and>
   get_used (fst (dm_alloc c32 0xFFFFFFFD m32)) 100 \<and>
   ent_size (fst (dm_alloc c32 0xFFFFFFFD m32)) 100 = 0"
proof -
  have found: "find (fits m32 (round_up4 0xFFFFFFFD)) (entries c32 m32) = Some 100"
    by (simp add: m32_first fits_nat round_up4_examples)
  have nz: "(0xFFFFFFFD :: 32 word) \<noteq> 0" by simp
  note at = dm_alloc_at [OF m32_inv nz found]
  have "ent_size (fst (dm_alloc c32 0xFFFFFFFD m32)) 100 = 0"
    using at(11) by (simp add: round_up4_examples m32_first)
  then show ?thesis
    using at(1,10) by (simp add: m32_inv m32_first round_up4_examples NULL_def)
qed

text \<open>
  C2.  In a well-formed arena let a request \<open>s > 0\<close> succeed, let \<open>e\<close> be the entry four
  bytes before the returned address, \<open>k\<close> the rounded request and \<open>d\<close> the size \<open>e\<close> had.
  Then \<open>e\<close> was a free entry of the chain with \<open>k \<le> d\<close>, it is now used, and
  \<^item> if \<open>d > k + 4\<close>, its size is \<open>k\<close> and a free entry of size \<open>d - k - 4\<close> stands at
    \<open>e + 4 + k\<close>, the chain being the old one with that entry put in behind \<open>e\<close>;
  \<^item> if \<open>d = k + 4\<close> or \<open>d = k\<close>, its size is \<open>d\<close> and the chain is the old one;
  no other case occurs, every byte outside the block \<open>[e, e + 4 + d)\<close> is as before, and
  so are the flag and the size of every other entry.
\<close>

theorem alloc_splits_block:
  fixes c m s
  defines "m' \<equiv> fst (dm_alloc c s m)" and "e \<equiv> snd (dm_alloc c s m) - hdr_size"
  defines "k \<equiv> unat (round_up4 s)" and "d \<equiv> ent_size m e"
  assumes "dm_inv c m" and "s \<noteq> 0" and "snd (dm_alloc c s m) \<noteq> NULL"
  shows "e \<in> set (entries c m) \<and> \<not> get_used m e \<and> k \<le> d \<and> get_used m' e \<and>
         (k + 4 < d \<longrightarrow>
            ent_size m' e = k \<and> \<not> get_used m' (e + 4 + k) \<and>
            ent_size m' (e + 4 + k) = d - k - 4 \<and>
            (\<exists>xs ys. entries c m = xs @ e # ys \<and> entries c m' = xs @ e # (e + 4 + k) # ys)) \<and>
         (d = k + 4 \<longrightarrow> ent_size m' e = d \<and> entries c m' = entries c m) \<and>
         (d = k \<longrightarrow> ent_size m' e = d \<and> entries c m' = entries c m) \<and>
         (k + 4 < d \<or> d = k + 4 \<or> d = k) \<and>
         (\<forall>x. x < e \<or> e + 4 + d \<le> x \<longrightarrow> m' x = m x) \<and>
         (\<forall>a \<in> set (entries c m). a \<noteq> e \<longrightarrow>
            get_used m' a = get_used m a \<and> get_d_size m' a = get_d_size m a)"
proof -
  obtain t where found: "find (fits m (round_up4 s)) (entries c m) = Some t"
    using dm_alloc_success [OF assms(6,7)] by blast
  note at = dm_alloc_at [OF assms(5,6) found, folded m'_def k_def]
  have e: "e = t" using at(1) by (simp add: e_def hdr_size_def)
  have dt: "ent_size m t = d" by (simp add: d_def e)
  note at' = at [unfolded dt]
  have frame: "m' x = m x" if "x < t \<or> t + 4 + d \<le> x" for x using that by (rule at'(13))
  have others: "get_used m' a = get_used m a \<and> get_d_size m' a = get_d_size m a"
    if a: "a \<in> set (entries c m)" and ne: "a \<noteq> t" for a
  proof -
    have ae: "a \<in> set (entries_from c m (work_mem c))"
      and te: "t \<in> set (entries_from c m (work_mem c))"
      using a at'(2) by (simp_all add: entries_eq)
    have out: "m' x = m x" if "a \<le> x" and "x < a + 4" for x
    proof (rule frame)
      consider "a < t" | "t < a" using ne by linarith
      then show "x < t \<or> t + 4 + d \<le> x"
      proof cases
        case 1
        then have "a + 4 + ent_size m a \<le> t" using ae te entries_from_spaced by blast
        then show ?thesis using that by simp
      next
        case 2
        then have "t + 4 + ent_size m t \<le> a" using ae te entries_from_spaced by blast
        then show ?thesis using that dt by simp
      qed
    qed
    show ?thesis using out by (intro conjI get_used_same_bytes get_d_size_same_bytes) blast+
  qed
  obtain xs ys where xy: "entries c m = xs @ t # ys"
    "entries c m' = xs @ t # (if k + 4 < d then [t + 4 + k] else []) @ ys"
    using at'(9) by blast
  have split: "\<exists>xs ys. entries c m = xs @ t # ys \<and> entries c m' = xs @ t # (t + 4 + k) # ys"
    if "k + 4 < d" using xy that by auto
  have same: "entries c m' = entries c m" if "\<not> k + 4 < d" using xy that by simp
  show ?thesis
    unfolding e
    using at'(2,3,4,5,10,11,12) frame others split same by auto
qed

theorem alloc_splits_block_witness:
  "dm_inv c32 m32 \<and> (5 :: 32 word) \<noteq> 0 \<and> snd (dm_alloc c32 5 m32) \<noteq> NULL \<and>
   snd (dm_alloc c32 5 m32) - hdr_size = 100 \<and> unat (round_up4 5) = 8 \<and>
   ent_size m32 100 = 28 \<and> \<not> get_used m32 100 \<and>
   get_used (fst (dm_alloc c32 5 m32)) 100 \<and> ent_size (fst (dm_alloc c32 5 m32)) 100 = 8 \<and>
   \<not> get_used (fst (dm_alloc c32 5 m32)) 112 \<and> ent_size (fst (dm_alloc c32 5 m32)) 112 = 16"
proof -
  have p: "snd (dm_alloc c32 5 m32) \<noteq> NULL" by (simp add: m32_alloc5 NULL_def)
  have five: "(5 :: 32 word) \<noteq> 0" by simp
  show ?thesis
    using alloc_splits_block [OF m32_inv five p] m32_inv p
    by (simp add: m32_alloc5 hdr_size_def round_up4_examples m32_first)
qed

text \<open>
  C3 fails on the source.  The arena of 32 bytes after \<^verbatim>\<open>p = dm_alloc(5)\<close> and
  \<^verbatim>\<open>memset(p, 0xFF, 8)\<close> is well formed and \<open>p = 104\<close> is an outstanding allocation.
  \<^verbatim>\<open>dm_realloc(p, 0xFFFFFFFD)\<close> rounds the request to 0, gets the block at 116 with the
  entry behind it starting at the same address, and copies \<open>min(0xFFFFFFFD, 8) = 8\<close>
  bytes there: the header at 116 now holds the caller's bytes, its size field reads
  \<open>2 ^ 31 - 1\<close>, and the chain no longer ends at the end of the arena.  Sequences of
  calls without such a \<^verbatim>\<open>dm_realloc\<close> keep the tiling (lemma \<open>tiling_kept\<close>).
\<close>

theorem realloc_wrap_breaks_tiling:
  "dm_inv c32 m32_ff \<and> is_allocated c32 m32_ff 104 \<and>
   snd (dm_realloc c32 104 0xFFFFFFFD m32_ff) = 116 \<and>
   m32_bad = fst (dm_realloc c32 104 0xFFFFFFFD m32_ff) \<and>
   entries c32 m32_bad = [100, 112, 116] \<and> ent_size m32_bad 116 = 2147483647 \<and>
   116 + hdr_size + ent_size m32_bad 116 \<noteq> mem_end c32 \<and> \<not> dm_inv c32 m32_bad"
proof -
  have "\<not> tiled_from c32 m32_bad 116"
    by (subst tiled_from_step) (simp add: m32_bad_chain)
  then have "\<not> tiled_from c32 m32_bad 112"
    by (subst tiled_from_step) (simp add: m32_bad_chain c32_fields)
  then have "\<not> tiled_from c32 m32_bad 100"
    by (subst tiled_from_step) (simp add: m32_bad_chain c32_fields)
  then have bad: "\<not> dm_inv c32 m32_bad" by (simp add: dm_inv_def c32_fields)
  have ptr: "snd (dm_realloc c32 104 0xFFFFFFFD m32_ff) = 116" by (simp add: m32_bad_eq)
  have def: "m32_bad = fst (dm_realloc c32 104 0xFFFFFFFD m32_ff)" by (rule m32_bad_def)
  have "116 + hdr_size + ent_size m32_bad 116 \<noteq> mem_end c32"
    by (simp add: m32_bad_chain c32_fields hdr_size_def)
  then show ?thesis
    using bad ptr def m32_ff_chain(1,7) m32_bad_chain(3,4) by blast
qed

text \<open>
  C4, as the source has it.  For a request \<open>n\<close> with \<open>0 < n \<le> 2 ^ 32 - 4\<close> that succeeds
  in a well-formed arena, the returned address is a multiple of 4 and \<^verbatim>\<open>dm_get_size\<close> of
  it is \<open>n\<close> rounded up to the next multiple of 4, or that plus 4 when the free entry
  taken had exactly that size plus 4 (the header-sized rest is folded into the block).
\<close>

theorem alloc_aligned_size:
  fixes c m n
  defines "p \<equiv> snd (dm_alloc c n m)" and "r \<equiv> (unat n + 3) div 4 * 4"
  assumes "dm_inv c m" and "n \<noteq> 0" and "unat n \<le> 2 ^ 32 - 4" and "p \<noteq> NULL"
  shows "p mod 4 = 0 \<and>
         unat (dm_get_size c p (fst (dm_alloc c n m))) =
           (if ent_size m (p - hdr_size) = r + 4 then r + 4 else r)"
proof -
  let ?m' = "fst (dm_alloc c n m)"
  have ok: "conf_ok c" using assms(3) by (simp add: dm_inv_def)
  have k: "unat (round_up4 n) = r" unfolding r_def using assms(5) by (rule unat_round_up4_small)
  have "unat n \<noteq> 0" using assms(4) by (simp add: unat_eq_0)
  then have rpos: "0 < r" unfolding r_def by simp
  obtain t where found: "find (fits m (round_up4 n)) (entries c m) = Some t"
    using dm_alloc_success [OF assms(4)] assms(6) unfolding p_def by blast
  note at = dm_alloc_at [OF assms(3,4) found, unfolded k]
  have pt: "p = t + 4" using at(1) by (simp add: p_def)
  have "work_mem c \<le> t" using at(2) entries_from_ge [of t c m "work_mem c"]
    by (simp add: entries_eq)
  moreover have "work_mem c mod 4 = 0" using ok by (simp add: conf_ok_def)
  ultimately have al: "p mod 4 = 0" unfolding pt using at(7) by (intro mod4_plus4) auto
  have "p < mem_end c" using at(4,6) rpos pt by simp
  moreover have "work_mem c \<le> p" using \<open>work_mem c \<le> t\<close> pt by simp
  ultimately have "p \<noteq> zero_mem c" using conf_ok_zero_mem(2) [OF ok] by blast
  then have "dm_get_size c p ?m' = get_d_size ?m' t"
    by (simp add: dm_get_size_def pt hdr_size_def)
  then have "unat (dm_get_size c p ?m') = (if ent_size m t = r + 4 then r + 4 else r)"
    using at(11) by (simp add: ent_size_def)
  then show ?thesis using al by (simp add: pt hdr_size_def)
qed

theorem alloc_aligned_size_witness:
  "dm_inv c32 m32 \<and> (5 :: 32 word) \<noteq> 0 \<and> unat (5 :: 32 word) \<le> 2 ^ 32 - 4 \<and>
   snd (dm_alloc c32 5 m32) \<noteq> NULL \<and> snd (dm_alloc c32 5 m32) mod 4 = 0 \<and>
   unat (dm_get_size c32 (snd (dm_alloc c32 5 m32)) (fst (dm_alloc c32 5 m32))) = 8"
proof -
  have p: "snd (dm_alloc c32 5 m32) \<noteq> NULL" by (simp add: m32_alloc5 NULL_def)
  have five: "(5 :: 32 word) \<noteq> 0" "unat (5 :: 32 word) \<le> 2 ^ 32 - 4" by simp_all
  show ?thesis
    using alloc_aligned_size [OF m32_inv five p] m32_inv p
    by (simp add: m32_alloc5 hdr_size_def m32_first)
qed

text \<open>
  The claim as stated fails where the rest is folded in: in the fresh arena of 32 bytes
  \<^verbatim>\<open>dm_alloc(24)\<close> succeeds, 24 is a multiple of 4, and \<^verbatim>\<open>dm_get_size\<close> reports 28.
\<close>

theorem alloc_aligned_size_counterexample:
  "snd (dm_alloc c32 24 m32) \<noteq> NULL \<and> (unat (24 :: 32 word) + 3) div 4 * 4 = 24 \<and>
   unat (dm_get_size c32 (snd (dm_alloc c32 24 m32)) (fst (dm_alloc c32 24 m32))) = 28"
proof -
  have f: "fits m32 24 100" by (simp add: fits_nat m32_first)
  have al: "dm_alloc c32 24 m32 = (fst (ent_alloc m32 100 24), 104)"
    using dm_alloc_some [of 24 m32 c32 100]
    by (simp add: m32_first fits_nat round_up4_examples c32_fields)
  have "ent_size (fst (ent_alloc m32 100 24)) 100 = 28"
    using ent_alloc_size [OF f] by (simp add: m32_first)
  then show ?thesis
    by (simp add: al NULL_def dm_get_size_def c32_fields hdr_size_def ent_size_def)
qed

text \<open>
  C5 fails on the source in a large arena: \<^verbatim>\<open>size_free_big * 100U\<close> is computed in 32
  bits.  In the freshly initialised arena of 64 MiB there is one free block of
  67108860 bytes, so the largest free block is all the free space and the fragmentation
  is \<open>100 - 100 * 67108860 div 67108860 = 0\<close>; \<^verbatim>\<open>dm_monitor\<close> reports 65.  The four
  counts are right there, and in arenas of less than \<open>2 ^ 32 / 100\<close> bytes so is the
  percentage (lemma \<open>monitor_exact\<close>).
\<close>

theorem monitor_percent_overflow:
  "dm_inv c64M m64M \<and> entries c64M m64M = [4096] \<and> \<not> get_used m64M 4096 \<and>
   ent_size m64M 4096 = 67108860 \<and>
   100 - 100 * ent_size m64M 4096 div ent_size m64M 4096 = 0 \<and>
   dm_monitor c64M m64M =
     Some \<lparr>cnt_free = 1, cnt_used = 0, size_free = 67108860, size_free_big = 67108860,
           pct_frag = 65\<rparr>"
proof -
  have ok: "conf_ok c64M"
    by (simp add: conf_ok_def c64M_def hdr_size_def mem_end_def)
  have inv: "dm_inv c64M m64M" unfolding m64M_def using ok by (rule dm_init_inv)
  have es: "entries c64M m64M = [4096]"
    using dm_init_entries [OF ok, of "\<lambda>x. 0"] by (simp add: m64M_def c64M_def)
  have fr: "\<not> get_used m64M 4096"
    using dm_init_used [of c64M "\<lambda>x. 0"] by (simp add: m64M_def c64M_def)
  have sz: "ent_size m64M 4096 = 67108860"
    using dm_init_size [OF ok, of "\<lambda>x. 0"] by (simp add: m64M_def c64M_def)
  then have "unat (get_d_size m64M 4096) = unat (67108860 :: 32 word)"
    by (simp add: ent_size_def)
  then have w: "get_d_size m64M 4096 = 67108860" by (simp only: word_unat_eq_iff)
  have "fold (mon_entry m64M) (entries c64M m64M) mon_zero =
      \<lparr>cnt_free = 1, cnt_used = 0, size_free = 67108860, size_free_big = 67108860,
       pct_frag = 0\<rparr>"
    by (simp add: es mon_entry_def fr w mon_zero_def Let_def)
  then have "dm_monitor c64M m64M =
      Some \<lparr>cnt_free = 1, cnt_used = 0, size_free = 67108860, size_free_big = 67108860,
            pct_frag = 65\<rparr>"
    by (simp add: dm_monitor_fold Let_def)
  then show ?thesis using inv es fr sz by simp
qed

text \<open>
  C6.  \<^verbatim>\<open>dm_alloc(0)\<close> returns the address of \<^verbatim>\<open>zero_mem\<close> whatever the store holds and
  leaves the store as it is; that address is not \<^verbatim>\<open>NULL\<close> and differs from every address
  \<open>p\<close> inside the arena, so from every payload address there; \<^verbatim>\<open>dm_free\<close> of the sentinel
  and of \<^verbatim>\<open>NULL\<close> leave the store as it is; \<^verbatim>\<open>dm_get_size\<close> of the sentinel is 0.
\<close>

theorem zero_size_sentinel:
  assumes "conf_ok c"
  shows "dm_alloc c 0 m = (m, zero_mem c) \<and> zero_mem c \<noteq> NULL \<and>
         (work_mem c \<le> p \<and> p < mem_end c \<longrightarrow> p \<noteq> zero_mem c) \<and>
         dm_free c (zero_mem c) m = m \<and> dm_free c NULL m = m \<and>
         dm_get_size c (zero_mem c) m = 0"
  using conf_ok_zero_mem [OF assms]
  by (simp add: dm_alloc_def dm_free_def dm_get_size_def)

theorem zero_size_sentinel_witness:
  "conf_ok c32 \<and> dm_alloc c32 0 m32_five = (m32_five, 200) \<and> (200 :: nat) \<noteq> NULL \<and>
   (104 :: nat) \<noteq> 200 \<and> dm_free c32 200 m32_five = m32_five \<and>
   dm_free c32 NULL m32_five = m32_five \<and> dm_get_size c32 200 m32_five = 0"
  using zero_size_sentinel [OF c32_ok, of m32_five 104] c32_ok
  by (simp add: c32_fields)

text \<open>
  C7 fails on the source.  In the second history \<open>p = 112\<close> is an outstanding allocation
  of 8 bytes, all \<^verbatim>\<open>0xFF\<close>, in a well-formed arena, and the free block in front of it
  has 4 bytes.  \<^verbatim>\<open>dm_realloc(p, 0xFFFFFFFD)\<close> returns \<open>q = 104\<close>, neither \<^verbatim>\<open>NULL\<close> nor the
  sentinel, having copied \<open>min(8, 0xFFFFFFFD) = 8\<close> bytes into a block of 4: the copy
  runs over the header of \<open>p\<close>, and \<^verbatim>\<open>dm_free(p)\<close> then clears bit 0 of the copied byte.
  The fifth byte at \<open>q\<close> is \<^verbatim>\<open>0xFE\<close>; the fifth byte \<open>p\<close> held was \<^verbatim>\<open>0xFF\<close>.  For
  requests of at most \<open>2 ^ 32 - 4\<close> bytes the content is kept and the old block freed
  (lemma \<open>realloc_keeps_content\<close>), and for \<^verbatim>\<open>NULL\<close> and the sentinel \<^verbatim>\<open>dm_realloc\<close> is
  \<^verbatim>\<open>dm_alloc\<close> (lemma \<open>dm_realloc_plain\<close>).
\<close>

theorem realloc_wrap_loses_content:
  "dm_inv c32 m32_bff \<and> is_allocated c32 m32_bff 112 \<and>
   unat (dm_get_size c32 112 m32_bff) = 8 \<and>
   snd (dm_realloc c32 112 0xFFFFFFFD m32_bff) = 104 \<and>
   (104 :: nat) \<noteq> NULL \<and> 104 \<noteq> zero_mem c32 \<and>
   min (unat (dm_get_size c32 112 m32_bff)) (unat (0xFFFFFFFD :: 32 word)) = 8 \<and>
   m32_bff (112 + 4) = 0xFF \<and>
   fst (dm_realloc c32 112 0xFFFFFFFD m32_bff) (104 + 4) = 0xFE"
proof -
  let ?ma = "fst (dm_alloc c32 0xFFFFFFFD m32_bff)"
  let ?mc = "memcpy ?ma 104 112 8"
  have sz: "unat (dm_get_size c32 112 m32_bff) = 8"
    using m32_bff_chain(6) by (simp add: dm_get_size_def c32_fields hdr_size_def ent_size_def)
  have ff: "?mc x = 0xFF" if "104 \<le> x" and "x < 112" for x
  proof -
    have "?mc x = ?ma (112 + (x - 104))" using that by (simp add: memcpy_def)
    also have "\<dots> = m32_bff (112 + (x - 104))" by (intro m32_bff_alloc(2)) simp
    also have "\<dots> = 0xFF" using that by (intro m32_bff_bytes) simp_all
    finally show ?thesis .
  qed
  have "load32 ?mc 108 = 0xFFFFFFFF" by (intro load32_ff ff) simp_all
  then have "set_used ?mc 108 False 108 = 0xFE"
    by (simp add: set_used_def store32_first)
  then have last: "fst (dm_realloc c32 112 0xFFFFFFFD m32_bff) (104 + 4) = 0xFE"
    by (simp add: m32_bff_realloc)
  have old: "m32_bff (112 + 4) = 0xFF" by (intro m32_bff_bytes) simp_all
  have ptr: "snd (dm_realloc c32 112 0xFFFFFFFD m32_bff) = 104" by (simp add: m32_bff_realloc)
  have ne: "(104 :: nat) \<noteq> NULL \<and> 104 \<noteq> zero_mem c32" by (simp add: NULL_def c32_fields)
  have mn: "min (unat (dm_get_size c32 112 m32_bff)) (unat (0xFFFFFFFD :: 32 word)) = 8"
    by (simp add: sz)
  show ?thesis using m32_bff_chain(1,7) sz ptr ne mn old last by blast
qed

text \<open>
  C8 fails on the source for the requests \<open>s > 2 ^ 32 - 4\<close>, by the rounding that
  wraps to 0.  In the arena of 32 bytes after \<^verbatim>\<open>p = dm_alloc(5)\<close> and
  \<^verbatim>\<open>memset(p, 0xFF, 8)\<close> the chain has a used block of 8 bytes and a free block of 16
  bytes, and \<^verbatim>\<open>0xFFFFFFFD\<close> rounded up to the next multiple of 4 is \<open>2 ^ 32\<close>: no free
  block is that large.  Yet \<^verbatim>\<open>dm_alloc(0xFFFFFFFD)\<close> returns 116, not \<^verbatim>\<open>NULL\<close>, and has
  rewritten the header of the free block, whose size is now 0; and
  \<^verbatim>\<open>dm_realloc(p, 0xFFFFFFFD)\<close> returns 116, not \<^verbatim>\<open>NULL\<close>, and has freed the block
  of \<open>p\<close>.  With the size as the code rounds it the claim holds for every request
  \<open>s > 0\<close> (lemma \<open>alloc_exhausted\<close>).
\<close>

theorem exhausted_wrapped_request:
  "entries c32 m32_ff = [100, 112] \<and> get_used m32_ff 100 \<and> ent_size m32_ff 100 = 8 \<and>
   \<not> get_used m32_ff 112 \<and> ent_size m32_ff 112 = 16 \<and>
   (unat (0xFFFFFFFD :: 32 word) + 3) div 4 * 4 = 4294967296 \<and>
   snd (dm_alloc c32 0xFFFFFFFD m32_ff) = 116 \<and>
   snd (dm_alloc c32 0xFFFFFFFD m32_ff) \<noteq> NULL \<and>
   ent_size (fst (dm_alloc c32 0xFFFFFFFD m32_ff)) 112 = 0 \<and>
   snd (dm_realloc c32 104 0xFFFFFFFD m32_ff) = 116 \<and>
   snd (dm_realloc c32 104 0xFFFFFFFD m32_ff) \<noteq> NULL \<and>
   \<not> get_used (fst (dm_realloc c32 104 0xFFFFFFFD m32_ff)) 100"
proof -
  have r: "(unat (0xFFFFFFFD :: 32 word) + 3) div 4 * 4 = 4294967296" by simp
  have a: "snd (dm_alloc c32 0xFFFFFFFD m32_ff) = 116" by (rule m32_ff_alloc(1))
  then have an: "snd (dm_alloc c32 0xFFFFFFFD m32_ff) \<noteq> NULL" by (simp add: NULL_def)
  have z: "ent_size (fst (dm_alloc c32 0xFFFFFFFD m32_ff)) 112 = 0" by (rule m32_ff_alloc(2))
  have q: "snd (dm_realloc c32 104 0xFFFFFFFD m32_ff) = 116" by (simp add: m32_bad_eq)
  then have qn: "snd (dm_realloc c32 104 0xFFFFFFFD m32_ff) \<noteq> NULL" by (simp add: NULL_def)
  have f: "\<not> get_used (fst (dm_realloc c32 104 0xFFFFFFFD m32_ff)) 100"
    by (simp add: m32_bad_eq get_used_set_used)
  show ?thesis using m32_ff_chain(2-6) r a an z q qn f by blast
qed

text \<open>
  C9.  For an outstanding allocation \<open>p\<close> other than the sentinel, \<^verbatim>\<open>dm_free(p)\<close> clears
  bit 0 of the header word four bytes before \<open>p\<close> and nothing else: the size field of that
  header stays, every byte of the store outside that header word stays (so the payload
  and every other header and payload), and the chain of entries is the same list of
  addresses with the same flags and sizes elsewhere, so nothing is merged.
\<close>

theorem free_clears_used_only:
  assumes "is_allocated c m p" and "p \<noteq> zero_mem c"
  shows "\<not> get_used (dm_free c p m) (p - hdr_size) \<and>
         get_d_size (dm_free c p m) (p - hdr_size) = get_d_size m (p - hdr_size) \<and>
         load32 (dm_free c p m) (p - hdr_size) = load32 m (p - hdr_size) AND NOT 1 \<and>
         (\<forall>x. x < p - hdr_size \<or> p \<le> x \<longrightarrow> dm_free c p m x = m x) \<and>
         entries c (dm_free c p m) = entries c m \<and>
         (\<forall>a \<in> set (entries c m). a \<noteq> p - hdr_size \<longrightarrow>
            get_used (dm_free c p m) a = get_used m a \<and>
            get_d_size (dm_free c p m) a = get_d_size m a)"
proof -
  let ?e = "p - hdr_size"
  note al = is_allocated_entry [OF assms(1)]
  have fr: "dm_free c p m = set_used m ?e False" using assms(2) al(4) by (rule dm_free_eq)
  have p: "p = ?e + 4" by (rule al(3))
  have mem: "?e \<in> set (entries_from c m (ent_get_next c m NULL))"
    using al(1) by (simp add: entries_def)
  have frame: "set_used m ?e False x = m x" if "x < ?e \<or> p \<le> x" for x
  proof (rule set_used_frame)
    show "x < ?e \<or> ?e + 4 \<le> x" using that p by auto
  qed
  have others: "get_used (set_used m ?e False) a = get_used m a \<and>
      get_d_size (set_used m ?e False) a = get_d_size m a"
    if "a \<in> set (entries c m)" and "a \<noteq> ?e" for a
  proof -
    have "a \<in> set (entries_from c m (ent_get_next c m NULL))"
      using that(1) by (simp add: entries_def)
    then have "?e + 4 \<le> a \<or> a + 4 \<le> ?e" using mem that(2) by (rule entries_from_apart)
    then show ?thesis by (simp add: get_used_set_used_other get_d_size_set_used_other)
  qed
  have "entries c (set_used m ?e False) = entries c m"
    using set_used_entries [OF mem] by (simp add: entries_def ent_get_next_first)
  then show ?thesis
    unfolding fr using frame others
    by (simp add: get_used_set_used get_d_size_set_used set_used_load32)
qed

theorem free_clears_used_only_witness:
  "is_allocated c32 m32_five 104 \<and> (104 :: nat) \<noteq> zero_mem c32 \<and>
   \<not> get_used (dm_free c32 104 m32_five) 100 \<and>
   get_d_size (dm_free c32 104 m32_five) 100 = get_d_size m32_five 100 \<and>
   entries c32 (dm_free c32 104 m32_five) = [100, 112]"
  using free_clears_used_only [OF m32_five_allocated, of] m32_five_allocated
  by (simp add: c32_fields hdr_size_def m32_five_chain)

text \<open>
  C10.  For an outstanding allocation \<open>p\<close> whose \<^verbatim>\<open>dm_get_size\<close> is not 0,
  \<^verbatim>\<open>dm_realloc(p, 0)\<close> returns the address of \<^verbatim>\<open>zero_mem\<close>, which is not \<^verbatim>\<open>NULL\<close>, and the
  store it leaves is the one \<^verbatim>\<open>dm_free(p)\<close> leaves: the \<^verbatim>\<open>used\<close> flag of the entry of
  \<open>p\<close> is cleared and every byte outside that header word is as before, so nothing was
  copied.
\<close>

theorem realloc_zero_frees:
  assumes "conf_ok c" and "is_allocated c m p" and "dm_get_size c p m \<noteq> 0"
  shows "snd (dm_realloc c p 0 m) = zero_mem c \<and> zero_mem c \<noteq> NULL \<and>
         fst (dm_realloc c p 0 m) = dm_free c p m \<and>
         \<not> get_used (fst (dm_realloc c p 0 m)) (p - hdr_size) \<and>
         (\<forall>x. x < p - hdr_size \<or> p \<le> x \<longrightarrow> fst (dm_realloc c p 0 m) x = m x)"
proof -
  note al = is_allocated_entry [OF assms(2)]
  have nz: "p \<noteq> zero_mem c" using assms(3) by (auto simp: dm_get_size_def)
  have z: "zero_mem c \<noteq> NULL" using assms(1) by (rule conf_ok_zero_mem)
  have re: "dm_realloc c p 0 m = (dm_free c p m, zero_mem c)"
    using assms(3) al(4) z
    by (simp add: dm_realloc_def dm_alloc_def Let_def min_u32_eq memcpy_none)
  have fr: "dm_free c p m = set_used m (p - hdr_size) False" using nz al(4) by (rule dm_free_eq)
  have "set_used m (p - hdr_size) False x = m x" if "x < p - hdr_size \<or> p \<le> x" for x
  proof (rule set_used_frame)
    show "x < p - hdr_size \<or> p - hdr_size + 4 \<le> x" using that al(3) by auto
  qed
  then show ?thesis using z by (simp add: re fr get_used_set_used)
qed

theorem realloc_zero_frees_witness:
  "conf_ok c32 \<and> is_allocated c32 m32_five 104 \<and> dm_get_size c32 104 m32_five \<noteq> 0 \<and>
   snd (dm_realloc c32 104 0 m32_five) = 200 \<and>
   fst (dm_realloc c32 104 0 m32_five) = dm_free c32 104 m32_five \<and>
   \<not> get_used (fst (dm_realloc c32 104 0 m32_five)) 100"
proof -
  have "unat (get_d_size m32_five 100) = 8" using m32_five_chain(3) by (simp add: ent_size_def)
  then have "get_d_size m32_five 100 \<noteq> 0" by auto
  then have sz: "dm_get_size c32 104 m32_five \<noteq> 0"
    by (simp add: dm_get_size_def c32_fields hdr_size_def)
  show ?thesis
    using realloc_zero_frees [OF c32_ok m32_five_allocated sz] c32_ok m32_five_allocated sz
    by (auto simp: c32_fields hdr_size_def)
qed

end
